theory Spec2Isabelle
  imports Main "HOL-Library.AList" "HOL-Library.Word"
begin

section \<open>Python values used by \<open>components/cache.py\<close>\<close>

text \<open>
  The module raises and catches Python exceptions. A computation that may raise has a
  result of type \<open>exn + 'a\<close>, with \<open>Inl\<close> for the exception that leaves it.
  \<open>RequestError\<close> stands for whatever the HTTP client or the response stream raises
  (a subclass of \<open>Exception\<close>, so the handler of \<open>write_cache_file\<close> catches it).
\<close>

datatype exn = FileNotFoundError | ValueError | IndexError | OSError | RequestError

type_synonym byte = "8 word"

subsection \<open>Strings: formatting and parsing of integers, split, startswith, endswith\<close>

definition digits :: string where
  "digits = ''0123456789''"

definition digit_char :: "nat \<Rightarrow> char" where
  "digit_char n = digits ! n"

definition digit_val :: "char \<Rightarrow> nat option" where
  "digit_val c = map_of (zip digits [0 ..< length digits]) c"

text \<open>The decimal digits of a natural number, most significant first.\<close>

fun str_of_nat :: "nat \<Rightarrow> string" where
  "str_of_nat n =
     (if n < 10 then [digit_char n] else str_of_nat (n div 10) @ [digit_char (n mod 10)])"

declare str_of_nat.simps [simp del]

text \<open>What an f-string writes for an \<open>int\<close>: a minus sign for a negative number.\<close>

definition str_of_int :: "int \<Rightarrow> string" where
  "str_of_int i = (if i < 0 then CHR ''-'' # str_of_nat (nat (- i)) else str_of_nat (nat i))"

fun nat_of_digits :: "string \<Rightarrow> nat \<Rightarrow> nat option" where
  "nat_of_digits [] acc = Some acc"
| "nat_of_digits (c # cs) acc =
     (case digit_val c of None \<Rightarrow> None | Some v \<Rightarrow> nat_of_digits cs (10 * acc + v))"

text \<open>
  \<open>int(s)\<close> on a string: an optional sign and at least one ASCII digit, \<open>ValueError\<close>
  otherwise. (Python also accepts white space around the number and digits outside
  ASCII; no name written by this module has either, and the theorems below that depend
  on parsing assume that the names of a directory are accepted here.)
\<close>

definition py_int :: "string \<Rightarrow> exn + int" where
  "py_int s =
     (case s of
        [] \<Rightarrow> Inl ValueError
      | c # cs \<Rightarrow>
          if c = CHR ''-'' \<or> c = CHR ''+'' then
            (if cs = [] then Inl ValueError
             else case nat_of_digits cs 0 of
                    None \<Rightarrow> Inl ValueError
                  | Some n \<Rightarrow> Inr (if c = CHR ''-'' then - int n else int n))
          else
            (case nat_of_digits s 0 of
               None \<Rightarrow> Inl ValueError
             | Some n \<Rightarrow> Inr (int n)))"

text \<open>\<open>s.split(sep)\<close> for a one-character separator: every occurrence splits.\<close>

fun split_on :: "char \<Rightarrow> string \<Rightarrow> string list" where
  "split_on sep [] = [[]]"
| "split_on sep (c # cs) =
     (if c = sep then [] # split_on sep cs
      else (case split_on sep cs of [] \<Rightarrow> [[c]] | p # ps \<Rightarrow> (c # p) # ps))"

definition startswith :: "string \<Rightarrow> string \<Rightarrow> bool" where
  "startswith s p = (take (length p) s = p)"

definition endswith :: "string \<Rightarrow> string \<Rightarrow> bool" where
  "endswith s p = (length p \<le> length s \<and> drop (length s - length p) s = p)"

section \<open>The data model\<close>

text \<open>
  Modelled from the spec: the declarations of \<open>CacheStatus\<close>, \<open>FileInfo\<close> and
  \<open>RequestInfo\<close> are in \<open>main.py\<close>, which is not among the sources. The spec lists
  the four statuses and the fields; the fields \<open>size\<close> and \<open>type\<close> of \<open>FileInfo\<close>
  are called \<open>file_size\<close> and \<open>file_type\<close> here.
\<close>

datatype CacheStatus = HIT | PARTIAL | HIT_TAIL | MISS

record FileInfo =
  path :: string
  file_size :: int
  cache_file_size :: int
  file_type :: string

record RequestInfo =
  file_info :: FileInfo
  start_byte :: int
  end_byte :: int
  host_url :: string
  cache_status :: CacheStatus

subsection \<open>The file system under \<open>cache_path\<close>\<close>

text \<open>
  A cache directory is \<open>os.path.join(cache_path, subdirname, dirname)\<close>; it is identified
  by the pair \<open>(subdirname, dirname)\<close>. A directory is an association list from file
  names to contents, in the order in which \<open>os.listdir\<close> lists it: that order is
  arbitrary, and so is the order of the list. A file that is created goes to the end;
  a file that is truncated keeps its place.
\<close>

type_synonym directory = "(string \<times> byte list) list"
type_synonym dirkey = "string \<times> string"
type_synonym filesystem = "dirkey \<Rightarrow> directory option"

definition listdir :: "filesystem \<Rightarrow> dirkey \<Rightarrow> exn + string list" where
  "listdir fs k = (case fs k of None \<Rightarrow> Inl FileNotFoundError | Some d \<Rightarrow> Inr (map fst d))"

text \<open>\<open>os.makedirs(dir, exist_ok=True)\<close>.\<close>

definition makedirs :: "filesystem \<Rightarrow> dirkey \<Rightarrow> filesystem" where
  "makedirs fs k = (case fs k of None \<Rightarrow> fs(k \<mapsto> []) | Some d \<Rightarrow> fs)"

text \<open>Opening a file for writing (\<open>'w'\<close>, \<open>'wb'\<close>) creates it empty or truncates it.\<close>

definition open_w :: "directory \<Rightarrow> string \<Rightarrow> directory" where
  "open_w d name = AList.update name [] d"

definition write_bytes :: "directory \<Rightarrow> string \<Rightarrow> byte list \<Rightarrow> directory" where
  "write_bytes d name chunk =
     (case map_of d name of None \<Rightarrow> d | Some c \<Rightarrow> AList.update name (c @ chunk) d)"

text \<open>\<open>os.remove\<close> raises \<open>FileNotFoundError\<close> when the file is not there.\<close>

definition remove :: "directory \<Rightarrow> string \<Rightarrow> exn + directory" where
  "remove d name =
     (if name \<in> set (map fst d) then Inr (AList.delete name d) else Inl FileNotFoundError)"

subsection \<open>Names of cache files\<close>

definition cache_file_name :: "int \<Rightarrow> int \<Rightarrow> string" where
  "cache_file_name start_point end_point =
     ''cache_file_'' @ str_of_int start_point @ ''_'' @ str_of_int end_point"

definition tag_name :: "int \<Rightarrow> int \<Rightarrow> string" where
  "tag_name start_point end_point = cache_file_name start_point end_point @ ''.tag''"

text \<open>\<open>file.startswith('cache_file_') and file.endswith('.tag') is False\<close>\<close>

definition is_cache_file :: "string \<Rightarrow> bool" where
  "is_cache_file file = (startswith file ''cache_file_'' \<and> \<not> endswith file ''.tag'')"

text \<open>
  \<open>a, b = map(int, file.split('_')[2:4])\<close>: \<open>ValueError\<close> when the slice has fewer than
  two parts or a part is not a number.
\<close>

definition parse_range :: "string \<Rightarrow> exn + (int \<times> int)" where
  "parse_range file =
     (case take 2 (drop 2 (split_on CHR ''_'' file)) of
        [a, b] \<Rightarrow>
          (case py_int a of
             Inl e \<Rightarrow> Inl e
           | Inr x \<Rightarrow> (case py_int b of Inl e \<Rightarrow> Inl e | Inr y \<Rightarrow> Inr (x, y)))
      | [a] \<Rightarrow> (case py_int a of Inl e \<Rightarrow> Inl e | Inr x \<Rightarrow> Inl ValueError)
      | _ \<Rightarrow> Inl ValueError)"

section \<open>\<open>read_file\<close>\<close>

text \<open>
  \<open>f.read(n)\<close> of a buffered binary file at position \<open>pos\<close>: up to \<open>n\<close> bytes, fewer only
  at the end of the file; everything to the end of the file for \<open>n = -1\<close>; \<open>ValueError\<close>
  for \<open>n < -1\<close>.
\<close>

definition file_read :: "byte list \<Rightarrow> nat \<Rightarrow> int \<Rightarrow> exn + byte list" where
  "file_read content pos n =
     (if n < - 1 then Inl ValueError
      else if n = - 1 then Inr (drop pos content)
      else Inr (take (nat n) (drop pos content)))"

text \<open>
  Lines 45 to 50, at file position \<open>pos\<close>: \<open>None\<close> is the \<open>break\<close> on
  \<open>remaining <= 0\<close>, otherwise the value of the variable \<open>chunk_size\<close> for the read
  that follows (the loop overwrites the variable when \<open>end_point\<close> is given).
\<close>

definition limit_chunk :: "nat \<Rightarrow> int option \<Rightarrow> int \<Rightarrow> int option" where
  "limit_chunk pos end_point chunk_size =
     (case end_point of
        None \<Rightarrow> Some chunk_size
      | Some e \<Rightarrow>
          (let remaining = (e + 1) - int pos
           in if remaining \<le> 0 then None else Some (min chunk_size remaining)))"

text \<open>
  The \<open>while True\<close> loop of \<open>read_file\<close>, from file position \<open>pos\<close>. The result is
  the list of the chunks the generator yields. An exception ends the generator: the
  handlers of \<open>read_file\<close> log it and nothing more is yielded.
\<close>

function read_loop :: "byte list \<Rightarrow> nat \<Rightarrow> int option \<Rightarrow> int \<Rightarrow> byte list list" where
  "read_loop content pos end_point chunk_size =
     (case limit_chunk pos end_point chunk_size of
        None \<Rightarrow> []
      | Some chunk_size' \<Rightarrow>
          (case file_read content pos chunk_size' of
             Inl e \<Rightarrow> []
           | Inr data \<Rightarrow>
               if data = [] then []
               else data # read_loop content (pos + length data) end_point chunk_size'))"
  by pat_completeness auto

lemma file_read_advances:
  assumes "file_read content pos n = Inr data" and "data \<noteq> []"
  shows "length content - (pos + length data) < length content - pos"
proof -
  from assms have "pos < length content"
    by (auto simp: file_read_def split: if_splits)
  moreover from assms have "0 < length data" by simp
  ultimately show ?thesis by linarith
qed

termination read_loop
  by (relation "measure (\<lambda>(content, pos, end_point, chunk_size). length content - pos)")
     (simp_all add: file_read_advances)

declare read_loop.simps [simp del]

text \<open>
  \<open>read_file(file_path, start_point, end_point, chunk_size)\<close>: the file is looked up in
  its directory; a missing file (or directory) is the \<open>FileNotFoundError\<close> branch, a
  negative \<open>start_point\<close> makes \<open>seek\<close> raise \<open>OSError\<close>; both are logged and the generator
  yields nothing.
\<close>

definition read_file ::
  "filesystem \<Rightarrow> dirkey \<Rightarrow> string \<Rightarrow> int \<Rightarrow> int option \<Rightarrow> int \<Rightarrow> byte list list" where
  "read_file fs k file start_point end_point chunk_size =
     (case fs k of
        None \<Rightarrow> []
      | Some d \<Rightarrow>
          (case map_of d file of
             None \<Rightarrow> []
           | Some content \<Rightarrow>
               if start_point < 0 then []
               else read_loop content (nat start_point) end_point chunk_size))"


section \<open>The collaborators\<close>

text \<open>
  \<open>get_hash_subdirectory_from_path\<close> (from \<open>components.utils\<close>) and
  \<open>get_or_cache_alist_raw_url\<close> (from \<open>main\<close>) are not among the sources: they are
  parameters. The resolver is taken to return a URL.
\<close>

record externals =
  get_hash_subdirectory_from_path :: "string \<Rightarrow> string \<Rightarrow> dirkey"
  get_or_cache_alist_raw_url :: "string \<Rightarrow> string \<Rightarrow> string"

text \<open>
  The HTTP client answers a GET request with a response or raises. A response has a
  status code and the chunks that \<open>aiter_bytes\<close> delivers; \<open>False\<close> in the last field
  says that the stream (or a write of the file) raises once these chunks are written.
\<close>

record http_request =
  url :: string
  headers :: "(string \<times> string) list"

datatype upstream = ConnectError | Response int "byte list list" bool

type_synonym client = "http_request \<Rightarrow> upstream"

text \<open>The state: the cache directories and the GET requests issued so far.\<close>

record world =
  files :: filesystem
  sent :: "http_request list"

section \<open>\<open>write_cache_file\<close>\<close>

text \<open>Lines 82 to 89: the range to cache; \<open>None\<close> is the \<open>else\<close> branch.\<close>

definition target_range :: "RequestInfo \<Rightarrow> (int \<times> int) option" where
  "target_range request_info =
     (if cache_status request_info = HIT \<or> cache_status request_info = PARTIAL then
        Some (0, cache_file_size (file_info request_info) - 1)
      else if cache_status request_info = HIT_TAIL then
        Some (start_byte request_info, file_size (file_info request_info) - 1)
      else None)"

text \<open>
  Lines 110 to 120: the loop over the listing. \<open>Abort\<close> is the branch that finds a file
  containing the range (the caller removes the tag and returns \<open>False\<close>); the listing
  is a snapshot, the directory changes as files are removed.
\<close>

datatype loop_end = Abort | Completed

fun check_existing :: "int \<Rightarrow> int \<Rightarrow> string list \<Rightarrow> directory \<Rightarrow> (exn + loop_end) \<times> directory" where
  "check_existing start_point end_point [] d = (Inr Completed, d)"
| "check_existing start_point end_point (file # listing) d =
     (if is_cache_file file then
        (case parse_range file of
           Inl e \<Rightarrow> (Inl e, d)
         | Inr (file_range_start, file_range_end) \<Rightarrow>
             if start_point \<ge> file_range_start \<and> end_point \<le> file_range_end then (Inr Abort, d)
             else if start_point \<le> file_range_start \<and> end_point \<ge> file_range_end then
               (case remove d file of
                  Inl e \<Rightarrow> (Inl e, d)
                | Inr d' \<Rightarrow> check_existing start_point end_point listing d')
             else check_existing start_point end_point listing d)
      else check_existing start_point end_point listing d)"

text \<open>\<open>raw_url.split('/')[2]\<close>\<close>

definition url_host :: "string \<Rightarrow> exn + string" where
  "url_host raw_url =
     (let parts = split_on CHR ''/'' raw_url
      in if 2 < length parts then Inr (parts ! 2) else Inl IndexError)"

text \<open>\<open>dict(req_header)\<close>: a later pair with the same key overwrites the value.\<close>

definition dict_copy :: "(string \<times> string) list \<Rightarrow> (string \<times> string) list" where
  "dict_copy h = foldl (\<lambda>d (key, v). AList.update key v d) [] h"

definition build_headers ::
  "(string \<times> string) list option \<Rightarrow> string \<Rightarrow> int \<Rightarrow> int \<Rightarrow> (string \<times> string) list" where
  "build_headers req_header host start_point end_point =
     (let h0 = (case req_header of None \<Rightarrow> [] | Some h \<Rightarrow> dict_copy h);
          h1 = AList.update ''host'' host h0
      in AList.update ''range''
           (''bytes='' @ str_of_int start_point @ ''-'' @ str_of_int end_point) h1)"

text \<open>
  Lines 133 to 147, the body of the \<open>try\<close>, once the request is built: the result is
  \<open>Inr True\<close> for \<open>return True\<close>, or the exception raised and the directory at that
  moment.
\<close>

definition try_fetch ::
  "upstream \<Rightarrow> string \<Rightarrow> string \<Rightarrow> directory \<Rightarrow> (exn + bool) \<times> directory" where
  "try_fetch resp cache_file tag d =
     (case resp of
        ConnectError \<Rightarrow> (Inl RequestError, d)
      | Response status_code chunks complete \<Rightarrow>
          if status_code \<noteq> 206 then (Inl ValueError, d)
          else
            (let d1 = open_w d cache_file;
                 d2 = foldl (\<lambda>d chunk. write_bytes d cache_file chunk) d1 chunks
             in if \<not> complete then (Inl RequestError, d2)
                else (case remove d2 tag of
                        Inl e \<Rightarrow> (Inl e, d2)
                      | Inr d3 \<Rightarrow> (Inr True, d3))))"

text \<open>
  Lines 149 to 154, the handler: it removes the cache file, then the tag, and returns
  \<open>False\<close>; an exception raised by a removal leaves the handler.
\<close>

definition handler :: "string \<Rightarrow> string \<Rightarrow> directory \<Rightarrow> (exn + bool) \<times> directory" where
  "handler cache_file tag d =
     (case remove d cache_file of
        Inl e \<Rightarrow> (Inl e, d)
      | Inr d1 \<Rightarrow>
          (case remove d1 tag of
             Inl e \<Rightarrow> (Inl e, d1)
           | Inr d2 \<Rightarrow> (Inr False, d2)))"

text \<open>
  Lines 104 to 154, the section under the lock, on the cache directory \<open>d\<close> (which
  exists): the result, the directory afterwards and the requests issued. The lock makes
  the section atomic with respect to other writers of the directory.
\<close>

definition locked_section ::
  "client \<Rightarrow> string \<Rightarrow> (string \<times> string) list option \<Rightarrow> int \<Rightarrow> int \<Rightarrow> directory
     \<Rightarrow> (exn + bool) \<times> directory \<times> http_request list" where
  "locked_section client raw_url req_header start_point end_point d =
     (let cache_file = cache_file_name start_point end_point;
          tag = tag_name start_point end_point;
          d1 = open_w d tag
      in case check_existing start_point end_point (map fst d1) d1 of
           (Inl e, d2) \<Rightarrow> (Inl e, d2, [])
         | (Inr Abort, d2) \<Rightarrow>
             (case remove d2 tag of
                Inl e \<Rightarrow> (Inl e, d2, [])
              | Inr d3 \<Rightarrow> (Inr False, d3, []))
         | (Inr Completed, d2) \<Rightarrow>
             (case url_host raw_url of
                Inl e \<Rightarrow> (Inl e, d2, [])
              | Inr host \<Rightarrow>
                  (let req = \<lparr>url = raw_url,
                              headers = build_headers req_header host start_point end_point\<rparr>
                   in case try_fetch (client req) cache_file tag d2 of
                        (Inr b, d3) \<Rightarrow> (Inr b, d3, [req])
                      | (Inl e, d3) \<Rightarrow>
                          (case handler cache_file tag d3 of
                             (r, d4) \<Rightarrow> (r, d4, [req])))))"

text \<open>
  \<open>write_cache_file(item_id, request_info, req_header, client)\<close>; \<open>item_id\<close> is only
  logged. The result is \<open>Inr None\<close> for the bare \<open>return\<close> of line 89, \<open>Inr (Some b)\<close>
  for \<open>return b\<close>, \<open>Inl e\<close> when the exception \<open>e\<close> leaves the function.
\<close>

definition write_cache_file ::
  "externals \<Rightarrow> RequestInfo \<Rightarrow> (string \<times> string) list option \<Rightarrow> client \<Rightarrow> world
     \<Rightarrow> (exn + bool option) \<times> world" where
  "write_cache_file ext request_info req_header client w =
     (let fi = file_info request_info;
          k = get_hash_subdirectory_from_path ext (path fi) (file_type fi)
      in case target_range request_info of
           None \<Rightarrow> (Inr None, w)
         | Some (start_point, end_point) \<Rightarrow>
             (let raw_url = get_or_cache_alist_raw_url ext (path fi) (host_url request_info);
                  fs1 = makedirs (files w) k
              in case fs1 k of
                   None \<Rightarrow> (Inl FileNotFoundError, w\<lparr>files := fs1\<rparr>)
                 | Some d \<Rightarrow>
                     (case locked_section client raw_url req_header start_point end_point d of
                        (r, d', reqs) \<Rightarrow>
                          (map_sum id Some r,
                           w\<lparr>files := fs1(k \<mapsto> d'), sent := sent w @ reqs\<rparr>))))"

section \<open>\<open>read_cache_file\<close> and \<open>get_cache_status\<close>\<close>

text \<open>
  The loop of \<open>read_cache_file\<close> over the listing: the first cache file whose range
  holds \<open>start_byte\<close>, with the start and end points passed to \<open>read_file\<close>.
\<close>

fun find_cache_file :: "RequestInfo \<Rightarrow> string list \<Rightarrow> exn + (string \<times> int \<times> int option) option" where
  "find_cache_file request_info [] = Inr None"
| "find_cache_file request_info (file # listing) =
     (if is_cache_file file then
        (case parse_range file of
           Inl e \<Rightarrow> Inl e
         | Inr (range_start, range_end) \<Rightarrow>
             if range_start \<le> start_byte request_info \<and> start_byte request_info \<le> range_end then
               (let adjusted_end_point =
                      (if cache_status request_info = PARTIAL \<or> cache_status request_info = HIT_TAIL
                       then None
                       else Some (end_byte request_info - start_byte request_info))
                in Inr (Some (file, start_byte request_info - range_start, adjusted_end_point)))
             else find_cache_file request_info listing)
      else find_cache_file request_info listing)"

text \<open>
  \<open>read_cache_file(request_info)\<close> returns the generator \<open>read_file(...)\<close> with the default
  chunk size of 1 MiB, or \<open>None\<close>. The generator is given here by the chunks it yields
  when it runs on the same file system.
\<close>

definition read_cache_file ::
  "externals \<Rightarrow> RequestInfo \<Rightarrow> filesystem \<Rightarrow> exn + byte list list option" where
  "read_cache_file ext request_info fs =
     (let fi = file_info request_info;
          k = get_hash_subdirectory_from_path ext (path fi) (file_type fi)
      in case listdir fs k of
           Inl e \<Rightarrow> Inl e
         | Inr listing \<Rightarrow>
             (case find_cache_file request_info listing of
                Inl e \<Rightarrow> Inl e
              | Inr None \<Rightarrow> Inr None
              | Inr (Some (file, start_point, end_point)) \<Rightarrow>
                  Inr (Some (read_file fs k file start_point end_point (1024 * 1024)))))"



section \<open>Properties of a cache directory\<close>

text \<open>
  The range that a directory entry stands for: the name of a cache file (not a tag) whose
  two numbers parse. The name is the only record of the range.
\<close>

definition file_range :: "string \<Rightarrow> (int \<times> int) option" where
  "file_range file =
     (if is_cache_file file then (case parse_range file of Inl e \<Rightarrow> None | Inr r \<Rightarrow> Some r)
      else None)"

text \<open>
  \<open>within r r'\<close>: the range \<open>r\<close> lies inside \<open>r'\<close>, by the comparison of line 114
  (\<open>start >= start' and end <= end'\<close>). \<open>apart r r'\<close>: the intervals share no offset.
\<close>

definition within :: "int \<times> int \<Rightarrow> int \<times> int \<Rightarrow> bool" where
  "within r r' = (fst r \<ge> fst r' \<and> snd r \<le> snd r')"

definition apart :: "int \<times> int \<Rightarrow> int \<times> int \<Rightarrow> bool" where
  "apart r r' = (snd r < fst r' \<or> snd r' < fst r)"

text \<open>
  For the target range \<open>(s, e)\<close> of a write: a cache file whose range contains the
  target (line 114), and one whose range lies inside it (line 118).
\<close>

definition superseded :: "int \<Rightarrow> int \<Rightarrow> string \<Rightarrow> bool" where
  "superseded s e f = (case file_range f of None \<Rightarrow> False | Some r \<Rightarrow> within r (s, e))"

definition containing :: "int \<Rightarrow> int \<Rightarrow> string \<Rightarrow> bool" where
  "containing s e f = (case file_range f of None \<Rightarrow> False | Some r \<Rightarrow> within (s, e) r)"

text \<open>
  A well-formed directory: the names are distinct (as in any directory) and every name
  that passes the test for a cache file has a range.
\<close>

definition wf_dir :: "directory \<Rightarrow> bool" where
  "wf_dir d =
     (distinct (map fst d) \<and>
      list_all (\<lambda>file. is_cache_file file \<longrightarrow> file_range file \<noteq> None) (map fst d))"

text \<open>
  \<open>pairwise_ranges rel d\<close>: the ranges of any two distinct cache files of \<open>d\<close> are related
  by \<open>rel\<close>. \<open>no_overlap\<close> is the invariant that the specification states; \<open>no_nested\<close>
  only excludes a range that lies inside another.
\<close>

definition pairwise_ranges :: "(int \<times> int \<Rightarrow> int \<times> int \<Rightarrow> bool) \<Rightarrow> directory \<Rightarrow> bool" where
  "pairwise_ranges rel d =
     (\<forall>f1 \<in> set (map fst d). \<forall>f2 \<in> set (map fst d).
        f1 \<noteq> f2 \<longrightarrow>
          (case (file_range f1, file_range f2) of
             (Some r1, Some r2) \<Rightarrow> rel r1 r2
           | _ \<Rightarrow> True))"

definition no_overlap :: "directory \<Rightarrow> bool" where
  "no_overlap d = pairwise_ranges apart d"

definition no_nested :: "directory \<Rightarrow> bool" where
  "no_nested d = pairwise_ranges (\<lambda>r r'. \<not> within r r') d"

text \<open>
  A sequence of calls of \<open>write_cache_file\<close>, each with its request, headers and client;
  the state is kept whether a call returns or raises.
\<close>

fun write_all ::
  "externals \<Rightarrow> (RequestInfo \<times> (string \<times> string) list option \<times> client) list \<Rightarrow> world \<Rightarrow> world" where
  "write_all ext [] w = w"
| "write_all ext ((request_info, req_header, client) # calls) w =
     write_all ext calls (snd (write_cache_file ext request_info req_header client w))"

text \<open>
  What every call of \<open>write_cache_file\<close> keeps true of a cache directory, if it exists:
  it is well formed and no range of a cache file lies inside the range of another.
\<close>

definition cache_dir_ok :: "filesystem \<Rightarrow> dirkey \<Rightarrow> bool" where
  "cache_dir_ok fs k = (case fs k of None \<Rightarrow> True | Some d \<Rightarrow> wf_dir d \<and> no_nested d)"

subsection \<open>Inputs for the examples\<close>

text \<open>
  A file of 2000 bytes with a head cache of 1000 bytes, a request for it at offset 500,
  collaborators that shard by type and path and resolve to a URL of the host, and
  clients that answer every request alike.
\<close>

definition movie :: FileInfo where
  "movie = \<lparr>path = ''/movies/a.mkv'', file_size = 2000, cache_file_size = 1000,
             file_type = ''movie''\<rparr>"

definition head_request :: RequestInfo where
  "head_request = \<lparr>file_info = movie, start_byte = 500, end_byte = 999,
                    host_url = ''http://alist:5244'', cache_status = HIT\<rparr>"

definition tail_request :: RequestInfo where
  "tail_request = head_request\<lparr>cache_status := HIT_TAIL\<rparr>"

definition movie_dir :: dirkey where
  "movie_dir = (''movie'', ''/movies/a.mkv'')"

definition example_ext :: externals where
  "example_ext = \<lparr>get_hash_subdirectory_from_path = (\<lambda>path file_type. (file_type, path)),
                   get_or_cache_alist_raw_url = (\<lambda>path host_url. host_url @ ''/d'' @ path)\<rparr>"

definition empty_world :: world where
  "empty_world = \<lparr>files = (\<lambda>k. None), sent = []\<rparr>"

definition movie_world :: "directory \<Rightarrow> world" where
  "movie_world d = \<lparr>files = (\<lambda>k. None)(movie_dir \<mapsto> d), sent = []\<rparr>"

definition serving :: "byte list list \<Rightarrow> client" where
  "serving chunks req = Response 206 chunks True"

definition refusing :: "int \<Rightarrow> client" where
  "refusing status req = Response status [] True"

section \<open>Names: formatting and parsing agree\<close>

lemma digit_val_digit_char:
  assumes "n < 10"
  shows "digit_val (digit_char n) = Some n"
proof -
  have "distinct digits" and "length digits = 10"
    by (simp_all add: digits_def)
  with assms have "map_of (zip digits [0 ..< length digits]) (digits ! n) = Some ([0 ..< length digits] ! n)"
    by (intro map_of_zip_nth) simp_all
  with assms \<open>length digits = 10\<close> show ?thesis
    by (simp add: digit_val_def digit_char_def)
qed

lemma digit_val_None_iff: "digit_val c = None \<longleftrightarrow> c \<notin> set digits"
proof -
  have "map fst (zip digits [0 ..< length digits]) = digits"
    by (rule map_fst_zip) simp
  then have "fst ` set (zip digits [0 ..< length digits]) = set digits"
    by (metis image_set)
  then show ?thesis
    by (simp add: digit_val_def map_of_eq_None_iff)
qed

lemma not_digit [simp]:
  "digit_val CHR ''-'' = None" "digit_val CHR ''+'' = None" "digit_val CHR ''_'' = None"
  "digit_val CHR ''g'' = None"
  by (simp_all add: digit_val_None_iff digits_def)

lemma digit_val_str_of_nat: "c \<in> set (str_of_nat n) \<Longrightarrow> digit_val c \<noteq> None"
proof (induction n rule: str_of_nat.induct)
  case (1 n)
  show ?case
  proof (cases "n < 10")
    case True
    with "1.prems" show ?thesis by (simp add: str_of_nat.simps digit_val_digit_char)
  next
    case False
    with "1.prems" have "c \<in> set (str_of_nat (n div 10)) \<or> c = digit_char (n mod 10)"
      by (subst (asm) str_of_nat.simps) auto
    with False "1.IH" show ?thesis by (auto simp: digit_val_digit_char)
  qed
qed

lemma str_of_nat_not_Nil: "str_of_nat n \<noteq> []"
  by (subst str_of_nat.simps) simp

lemma last_str_of_nat: "last (str_of_nat n) = digit_char (n mod 10)"
  by (subst str_of_nat.simps) simp

lemma nat_of_digits_snoc:
  "nat_of_digits (cs @ [c]) acc =
     (case nat_of_digits cs acc of
        None \<Rightarrow> None
      | Some a \<Rightarrow> (case digit_val c of None \<Rightarrow> None | Some v \<Rightarrow> Some (10 * a + v)))"
  by (induction cs arbitrary: acc) (auto split: option.splits)

lemma nat_of_digits_str_of_nat: "nat_of_digits (str_of_nat n) 0 = Some n"
proof (induction n rule: str_of_nat.induct)
  case (1 n)
  show ?case
  proof (cases "n < 10")
    case True
    then show ?thesis by (simp add: str_of_nat.simps digit_val_digit_char)
  next
    case False
    then have "str_of_nat n = str_of_nat (n div 10) @ [digit_char (n mod 10)]"
      by (subst str_of_nat.simps) simp
    with False "1.IH" show ?thesis
      by (simp add: nat_of_digits_snoc digit_val_digit_char)
  qed
qed

lemma hd_str_of_nat_digit: "digit_val (hd (str_of_nat n)) \<noteq> None"
  using digit_val_str_of_nat [of "hd (str_of_nat n)" n] str_of_nat_not_Nil [of n] by simp

lemma py_int_str_of_int: "py_int (str_of_int i) = Inr i"
proof (cases "i < 0")
  case True
  then show ?thesis
    by (simp add: py_int_def str_of_int_def str_of_nat_not_Nil nat_of_digits_str_of_nat)
next
  case False
  obtain c cs where s: "str_of_nat (nat i) = c # cs"
    using str_of_nat_not_Nil [of "nat i"] by (cases "str_of_nat (nat i)") auto
  have "digit_val c \<noteq> None"
    using hd_str_of_nat_digit [of "nat i"] s by simp
  then have "c \<noteq> CHR ''-''" "c \<noteq> CHR ''+''"
    by auto
  moreover have "nat_of_digits (c # cs) 0 = Some (nat i)"
    using nat_of_digits_str_of_nat [of "nat i"] s by simp
  ultimately show ?thesis
    using False s by (simp add: py_int_def str_of_int_def del: nat_of_digits.simps)
qed

lemma sep_notin_str_of_int:
  assumes "digit_val sep = None" and "sep \<noteq> CHR ''-''"
  shows "sep \<notin> set (str_of_int i)"
  using assms digit_val_str_of_nat [of sep] by (auto simp: str_of_int_def)

lemma underscore_notin_str_of_int: "CHR ''_'' \<notin> set (str_of_int i)"
  by (rule sep_notin_str_of_int) simp_all

lemma split_on_not_Nil: "split_on sep s \<noteq> []"
  by (induction s) (auto split: list.splits)

lemma split_on_no_sep: "sep \<notin> set s \<Longrightarrow> split_on sep s = [s]"
  by (induction s) auto

lemma split_on_append:
  "sep \<notin> set xs \<Longrightarrow> split_on sep (xs @ sep # ys) = xs # split_on sep ys"
  by (induction xs) auto

lemma split_cache_file_name:
  "split_on CHR ''_'' (cache_file_name s e) = [''cache'', ''file'', str_of_int s, str_of_int e]"
proof -
  have "split_on CHR ''_'' (str_of_int s @ CHR ''_'' # str_of_int e) = [str_of_int s, str_of_int e]"
    by (simp add: split_on_append split_on_no_sep underscore_notin_str_of_int)
  then show ?thesis
    by (simp add: cache_file_name_def)
qed

lemma parse_range_cache_file_name: "parse_range (cache_file_name s e) = Inr (s, e)"
  by (simp add: parse_range_def split_cache_file_name py_int_str_of_int)

lemma last_str_of_int: "last (str_of_int i) = digit_char (nat \<bar>i\<bar> mod 10)"
  by (auto simp: str_of_int_def last_str_of_nat str_of_nat_not_Nil)

lemma str_of_int_not_Nil: "str_of_int i \<noteq> []"
  by (simp add: str_of_int_def str_of_nat_not_Nil)

lemma endswith_append: "endswith (xs @ p) p"
  by (simp add: endswith_def)

lemma endswith_last: "endswith s p \<Longrightarrow> p \<noteq> [] \<Longrightarrow> last s = last p"
proof -
  assume e: "endswith s p" and p: "p \<noteq> []"
  then have d: "drop (length s - length p) s = p" and l: "length p \<le> length s"
    by (simp_all add: endswith_def)
  from p l have "length s - length p < length s" by (cases p) auto
  then have "last (drop (length s - length p) s) = last s" by (rule last_drop)
  with d show ?thesis by simp
qed

lemma startswith_append: "startswith (p @ xs) p"
  by (simp add: startswith_def)

lemma last_cache_file_name: "digit_val (last (cache_file_name s e)) \<noteq> None"
proof -
  have "last (cache_file_name s e) = last (str_of_int e)"
    by (simp add: cache_file_name_def str_of_int_not_Nil)
  then show ?thesis
    by (simp add: last_str_of_int digit_val_digit_char)
qed

lemma is_cache_file_cache_file_name: "is_cache_file (cache_file_name s e)"
proof -
  have "startswith (cache_file_name s e) ''cache_file_''"
    unfolding cache_file_name_def by (rule startswith_append)
  moreover have "\<not> endswith (cache_file_name s e) ''.tag''"
  proof
    assume "endswith (cache_file_name s e) ''.tag''"
    then have "last (cache_file_name s e) = CHR ''g''"
      using endswith_last by fastforce
    with last_cache_file_name [of s e] show False
      by simp
  qed
  ultimately show ?thesis by (simp add: is_cache_file_def)
qed

lemma endswith_tag_name: "endswith (tag_name s e) ''.tag''"
  unfolding tag_name_def by (rule endswith_append)

lemma not_is_cache_file_tag_name: "\<not> is_cache_file (tag_name s e)"
  by (simp add: is_cache_file_def endswith_tag_name)

lemma tag_name_neq_cache_file_name: "tag_name s e \<noteq> cache_file_name s' e'"
  using is_cache_file_cache_file_name [of s' e'] not_is_cache_file_tag_name [of s e] by auto

section \<open>The chunks of \<open>read_file\<close>\<close>





lemma read_loop_unfold:
  "read_loop content pos end_point chunk_size =
     (case limit_chunk pos end_point chunk_size of
        None \<Rightarrow> []
      | Some cs \<Rightarrow>
          (case file_read content pos cs of
             Inl e \<Rightarrow> []
           | Inr data \<Rightarrow>
               if data = [] then []
               else data # read_loop content (pos + length data) end_point cs))"
  by (rule read_loop.simps)

lemma read_loop_chunks:
  "0 \<le> chunk_size \<Longrightarrow> chunk \<in> set (read_loop content pos end_point chunk_size) \<Longrightarrow>
   chunk \<noteq> [] \<and> int (length chunk) \<le> chunk_size"
proof (induction content pos end_point chunk_size rule: read_loop.induct)
  case (1 content pos end_point chunk_size)
  note mem = "1.prems"(2) [unfolded read_loop_unfold [of content pos end_point chunk_size]]
  show ?case
  proof (cases "limit_chunk pos end_point chunk_size")
    case None
    with mem show ?thesis by simp
  next
    case (Some cs)
    with "1.prems"(1) have cs: "0 \<le> cs" "cs \<le> chunk_size"
      by (auto simp: limit_chunk_def Let_def split: option.splits if_splits)
    show ?thesis
    proof (cases "file_read content pos cs")
      case (Inl e)
      with Some mem show ?thesis by simp
    next
      case (Inr data)
      with cs have len: "int (length data) \<le> cs"
        by (auto simp: file_read_def split: if_splits)
      show ?thesis
      proof (cases "data = []")
        case True
        with Some Inr mem show ?thesis by simp
      next
        case False
        with Some Inr mem have
          "chunk = data \<or> chunk \<in> set (read_loop content (pos + length data) end_point cs)"
          by simp
        with False len cs "1.IH" [OF Some Inr False cs(1)] show ?thesis
          by auto
      qed
    qed
  qed
qed




text \<open>
  Claim C9. Every chunk that \<open>read_file\<close> yields is non-empty and no longer than the
  \<open>chunk_size\<close> the caller passed, whatever the file system, the file, the start point
  and the optional end point, for a chunk size that is not negative. (\<open>-1\<close> is Python's
  request to read to the end of the file, not a size.)
\<close>

theorem read_file_chunk_sizes:
  assumes "0 \<le> chunk_size"
    and "chunk \<in> set (read_file fs k file start_point end_point chunk_size)"
  shows "chunk \<noteq> [] \<and> int (length chunk) \<le> chunk_size"
proof -
  from assms(2) obtain content where
    "chunk \<in> set (read_loop content (nat start_point) end_point chunk_size)"
    by (auto simp: read_file_def split: option.splits if_splits)
  with assms(1) show ?thesis by (rule read_loop_chunks)
qed

lemma read_loop_example:
  "read_loop [10, 11, 12, 13, 14, 15, 16] 2 (Some 5) 3 = [[12, 13, 14], [15]]"
  by (simp add: read_loop.simps limit_chunk_def file_read_def)

theorem read_file_chunk_sizes_witness:
  "[15] \<in> set (read_file (Map.empty((''movie'', ''0a1b'') \<mapsto> [(''cache_file_0_6'', [10, 11, 12, 13, 14, 15, 16])]))
       (''movie'', ''0a1b'') ''cache_file_0_6'' 2 (Some 5) 3)
   \<and> [15 :: byte] \<noteq> [] \<and> int (length [15 :: byte]) \<le> 3"
proof -
  let ?fs = "Map.empty((''movie'', ''0a1b'') \<mapsto> [(''cache_file_0_6'', [10, 11, 12, 13, 14, 15, 16 :: byte])])"
  have m: "[15] \<in> set (read_file ?fs (''movie'', ''0a1b'') ''cache_file_0_6'' 2 (Some 5) 3)"
    by (simp add: read_file_def read_loop_example)
  from read_file_chunk_sizes [OF _ m] m show ?thesis by simp
qed

section \<open>The loop over the existing files\<close>

lemma file_range_cache_file_name [simp]: "file_range (cache_file_name s e) = Some (s, e)"
  by (simp add: file_range_def is_cache_file_cache_file_name parse_range_cache_file_name)

lemma file_range_tag_name [simp]: "file_range (tag_name s e) = None"
  by (simp add: file_range_def not_is_cache_file_tag_name)

lemma file_range_SomeD: "file_range f = Some r \<Longrightarrow> is_cache_file f \<and> parse_range f = Inr r"
  by (auto simp: file_range_def split: if_splits sum.splits)

lemma file_range_NoneD:
  "file_range f = None \<Longrightarrow> is_cache_file f \<Longrightarrow> \<exists>e. parse_range f = Inl e"
  by (auto simp: file_range_def split: if_splits sum.splits)

text \<open>One step of the loop, by what the entry is.\<close>

lemma check_existing_skip:
  "file_range f = None \<Longrightarrow> \<not> is_cache_file f \<Longrightarrow>
   check_existing s e (f # l) d = check_existing s e l d"
  by simp

lemma check_existing_abort:
  "file_range f = Some r \<Longrightarrow> within (s, e) r \<Longrightarrow> check_existing s e (f # l) d = (Inr Abort, d)"
  by (cases r) (auto dest!: file_range_SomeD simp: within_def)

lemma check_existing_remove:
  "file_range f = Some r \<Longrightarrow> \<not> within (s, e) r \<Longrightarrow> within r (s, e) \<Longrightarrow>
   check_existing s e (f # l) d =
     (case remove d f of Inl ex \<Rightarrow> (Inl ex, d) | Inr d' \<Rightarrow> check_existing s e l d')"
  by (cases r) (auto dest!: file_range_SomeD simp: within_def)

lemma check_existing_keep:
  "file_range f = Some r \<Longrightarrow> \<not> within (s, e) r \<Longrightarrow> \<not> within r (s, e) \<Longrightarrow>
   check_existing s e (f # l) d = check_existing s e l d"
  by (cases r) (auto dest!: file_range_SomeD simp: within_def)

lemma check_existing_raise:
  "is_cache_file f \<Longrightarrow> file_range f = None \<Longrightarrow> \<exists>ex. check_existing s e (f # l) d = (Inl ex, d)"
  by (auto dest!: file_range_NoneD)


lemmas check_existing_step =
  check_existing_skip check_existing_abort check_existing_remove check_existing_keep

declare check_existing.simps(2) [simp del]

lemma delete_filter: "AList.delete f d = filter (\<lambda>p. fst p \<noteq> f) d"
  by (induction d) auto

lemma remove_Inr: "remove d f = Inr d' \<Longrightarrow> d' = AList.delete f d \<and> f \<in> fst ` set d"
  by (auto simp: remove_def split: if_splits)

lemma remove_present: "f \<in> fst ` set d \<Longrightarrow> remove d f = Inr (AList.delete f d)"
  by (simp add: remove_def)

lemma remove_absent: "f \<notin> fst ` set d \<Longrightarrow> remove d f = Inl FileNotFoundError"
  by (simp add: remove_def)

text \<open>Whatever the loop does, it only removes entries.\<close>

lemma check_existing_filter:
  "check_existing s e l d = (res, d') \<Longrightarrow> \<exists>P. d' = filter P d"
proof (induction l arbitrary: d)
  case Nil
  then have "d' = filter (\<lambda>p. True) d" by simp
  then show ?case by blast
next
  case (Cons f l)
  show ?case
  proof (cases "file_range f")
    case None
    show ?thesis
    proof (cases "is_cache_file f")
      case True
      with None Cons.prems check_existing_raise [of f s e l d] have "d' = filter (\<lambda>p. True) d"
        by auto
      then show ?thesis by blast
    next
      case False
      with None Cons show ?thesis by (simp add: check_existing_skip)
    qed
  next
    case (Some r)
    consider (abort) "within (s, e) r"
      | (remove) "\<not> within (s, e) r" "within r (s, e)"
      | (keep) "\<not> within (s, e) r" "\<not> within r (s, e)"
      by blast
    then show ?thesis
    proof cases
      case abort
      with Some Cons.prems have "d' = filter (\<lambda>p. True) d"
        by (simp add: check_existing_abort)
      then show ?thesis by blast
    next
      case remove
      show ?thesis
      proof (cases "remove d f")
        case (Inl ex)
        with Some remove Cons.prems have "d' = filter (\<lambda>p. True) d"
          by (simp add: check_existing_remove)
        then show ?thesis by blast
      next
        case (Inr d1)
        with Some remove Cons.prems have "check_existing s e l d1 = (res, d')"
          by (simp add: check_existing_remove)
        then obtain P where "d' = filter P d1" using Cons.IH by blast
        moreover from Inr have "d1 = filter (\<lambda>p. fst p \<noteq> f) d"
          by (auto dest!: remove_Inr simp: delete_filter)
        ultimately have "d' = filter (\<lambda>p. fst p \<noteq> f \<and> P p) d" by (simp add: conj_commute)
        then show ?thesis by blast
      qed
    next
      case keep
      with Some Cons show ?thesis by (simp add: check_existing_keep)
    qed
  qed
qed

text \<open>
  When the loop runs to its end, no entry of the listing contains the target range, and
  the entries of the listing that lie inside it are gone.
\<close>

lemma check_existing_completed:
  "check_existing s e l d = (Inr Completed, d') \<Longrightarrow>
   (\<forall>f \<in> set l. \<not> containing s e f) \<and>
   d' = filter (\<lambda>p. \<not> (fst p \<in> set l \<and> superseded s e (fst p))) d"
proof (induction l arbitrary: d)
  case Nil
  then show ?case by simp
next
  case (Cons f l)
  show ?case
  proof (cases "file_range f")
    case None
    show ?thesis
    proof (cases "is_cache_file f")
      case True
      with None Cons.prems check_existing_raise [of f s e l d] show ?thesis by auto
    next
      case False
      with None Cons.prems have "check_existing s e l d = (Inr Completed, d')"
        by (simp add: check_existing_skip)
      from Cons.IH [OF this] None show ?thesis
        by (auto simp: containing_def superseded_def intro!: filter_cong)
    qed
  next
    case (Some r)
    consider (abort) "within (s, e) r"
      | (remove) "\<not> within (s, e) r" "within r (s, e)"
      | (keep) "\<not> within (s, e) r" "\<not> within r (s, e)"
      by blast
    then show ?thesis
    proof cases
      case abort
      with Some Cons.prems show ?thesis by (simp add: check_existing_abort)
    next
      case remove
      show ?thesis
      proof (cases "remove d f")
        case (Inl ex)
        with Some remove Cons.prems show ?thesis by (simp add: check_existing_remove)
      next
        case (Inr d1)
        with Some remove Cons.prems have "check_existing s e l d1 = (Inr Completed, d')"
          by (simp add: check_existing_remove)
        from Cons.IH [OF this] have
          no: "\<forall>f \<in> set l. \<not> containing s e f" and
          d': "d' = filter (\<lambda>p. \<not> (fst p \<in> set l \<and> superseded s e (fst p))) d1"
          by simp_all
        from Inr have "d1 = filter (\<lambda>p. fst p \<noteq> f) d"
          by (auto dest!: remove_Inr simp: delete_filter)
        with d' have "d' = filter (\<lambda>p. \<not> (fst p \<in> set (f # l) \<and> superseded s e (fst p))) d"
          using Some remove by (auto simp: superseded_def intro!: filter_cong)
        with no Some remove show ?thesis by (simp add: containing_def)
      qed
    next
      case keep
      with Some Cons.prems have "check_existing s e l d = (Inr Completed, d')"
        by (simp add: check_existing_keep)
      from Cons.IH [OF this] Some keep show ?thesis
        by (auto simp: containing_def superseded_def intro!: filter_cong)
    qed
  qed
qed

lemma check_existing_aborted:
  "check_existing s e l d = (Inr Abort, d') \<Longrightarrow>
   \<exists>l1 f l2. l = l1 @ f # l2 \<and> containing s e f \<and> (\<forall>g \<in> set l1. \<not> containing s e g) \<and>
     d' = filter (\<lambda>p. \<not> (fst p \<in> set l1 \<and> superseded s e (fst p))) d"
proof (induction l arbitrary: d)
  case Nil
  then show ?case by simp
next
  case (Cons f l)
  have extend: "\<exists>l1 g l2. f # l = l1 @ g # l2 \<and> containing s e g \<and> (\<forall>h \<in> set l1. \<not> containing s e h) \<and>
     d' = filter (\<lambda>p. \<not> (fst p \<in> set l1 \<and> superseded s e (fst p))) d"
    if rest: "check_existing s e l d1 = (Inr Abort, d')"
      and f: "\<not> containing s e f"
      and d1: "d1 = filter (\<lambda>p. \<not> (fst p = f \<and> superseded s e f)) d" for d1
  proof -
    from Cons.IH [OF rest] obtain l1 g l2 where
      l: "l = l1 @ g # l2" and g: "containing s e g" and l1: "\<forall>h \<in> set l1. \<not> containing s e h" and
      d': "d' = filter (\<lambda>p. \<not> (fst p \<in> set l1 \<and> superseded s e (fst p))) d1"
      by blast
    from d' d1 have "d' = filter (\<lambda>p. \<not> (fst p \<in> set (f # l1) \<and> superseded s e (fst p))) d"
      by (auto intro!: filter_cong)
    moreover from l have "f # l = (f # l1) @ g # l2" by simp
    moreover from f l1 have "\<forall>h \<in> set (f # l1). \<not> containing s e h" by simp
    ultimately show ?thesis using g by blast
  qed
  show ?case
  proof (cases "file_range f")
    case None
    show ?thesis
    proof (cases "is_cache_file f")
      case True
      with None Cons.prems check_existing_raise [of f s e l d] show ?thesis by auto
    next
      case False
      with None Cons.prems have "check_existing s e l d = (Inr Abort, d')"
        by (simp add: check_existing_skip)
      then show ?thesis
        using None by (intro extend [of d]) (simp_all add: containing_def superseded_def)
    qed
  next
    case (Some r)
    consider (abort) "within (s, e) r"
      | (remove) "\<not> within (s, e) r" "within r (s, e)"
      | (keep) "\<not> within (s, e) r" "\<not> within r (s, e)"
      by blast
    then show ?thesis
    proof cases
      case abort
      with Some Cons.prems have "d' = d" by (simp add: check_existing_abort)
      moreover from Some abort have "containing s e f" by (simp add: containing_def)
      ultimately have "f # l = [] @ f # l \<and> containing s e f \<and> (\<forall>g \<in> set []. \<not> containing s e g) \<and>
          d' = filter (\<lambda>p. \<not> (fst p \<in> set [] \<and> superseded s e (fst p))) d"
        by simp
      then show ?thesis by blast
    next
      case remove
      show ?thesis
      proof (cases "remove d f")
        case (Inl ex)
        with Some remove Cons.prems show ?thesis by (simp add: check_existing_remove)
      next
        case (Inr d1)
        with Some remove Cons.prems have "check_existing s e l d1 = (Inr Abort, d')"
          by (simp add: check_existing_remove)
        moreover from Inr have "d1 = filter (\<lambda>p. fst p \<noteq> f) d"
          by (auto dest!: remove_Inr simp: delete_filter)
        ultimately show ?thesis
          using Some remove by (intro extend [of d1]) (simp_all add: containing_def superseded_def)
      qed
    next
      case keep
      with Some Cons.prems have "check_existing s e l d = (Inr Abort, d')"
        by (simp add: check_existing_keep)
      then show ?thesis
        using Some keep by (intro extend [of d]) (simp_all add: containing_def superseded_def)
    qed
  qed
qed

lemma names_delete: "fst ` set (AList.delete f d) = fst ` set d - {f}"
  by (induction d) auto

text \<open>On a well-formed listing the loop raises nothing.\<close>

lemma check_existing_returns:
  assumes "\<forall>f \<in> set l. is_cache_file f \<longrightarrow> file_range f \<noteq> None"
    and "distinct l" and "set l \<subseteq> fst ` set d"
  shows "\<exists>r d'. check_existing s e l d = (Inr r, d')"
  using assms
proof (induction l arbitrary: d)
  case Nil
  then show ?case by simp
next
  case (Cons f l)
  from Cons.prems have rest: "\<forall>f \<in> set l. is_cache_file f \<longrightarrow> file_range f \<noteq> None" "distinct l"
    and f: "f \<in> fst ` set d" "f \<notin> set l" and sub: "set l \<subseteq> fst ` set d"
    by auto
  show ?case
  proof (cases "file_range f")
    case None
    with Cons.prems have "\<not> is_cache_file f" by auto
    with None Cons.IH [OF rest sub] show ?thesis by (simp add: check_existing_skip)
  next
    case (Some r)
    consider (abort) "within (s, e) r"
      | (remove) "\<not> within (s, e) r" "within r (s, e)"
      | (keep) "\<not> within (s, e) r" "\<not> within r (s, e)"
      by blast
    then show ?thesis
    proof cases
      case abort
      with Some show ?thesis by (simp add: check_existing_abort)
    next
      case remove
      from f(2) sub have "set l \<subseteq> fst ` set d - {f}"
        by auto
      then have "set l \<subseteq> fst ` set (AList.delete f d)"
        by (simp only: names_delete)
      from Cons.IH [OF rest this] Some remove f show ?thesis
        by (simp add: check_existing_remove remove_present)
    next
      case keep
      with Some Cons.IH [OF rest sub] show ?thesis by (simp add: check_existing_keep)
    qed
  qed
qed

section \<open>The section under the lock\<close>

lemma names_open_w: "fst ` set (open_w d n) = insert n (fst ` set d)"
  by (simp add: open_w_def dom_update)

lemma names_update: "fst ` set (AList.update n c d) = insert n (fst ` set d)"
  by (simp add: dom_update)

lemma names_filter: "fst ` set (filter P d) \<subseteq> fst ` set d"
  by auto

lemma update_absent: "n \<notin> fst ` set d \<Longrightarrow> AList.update n c d = d @ [(n, c)]"
  by (induction d) auto

lemma delete_update_absent: "n \<notin> fst ` set d \<Longrightarrow> AList.delete n (AList.update n c d) = d"
  by (simp add: delete_update_same)

lemma write_chunks:
  "map_of d n = Some c \<Longrightarrow>
   foldl (\<lambda>d chunk. write_bytes d n chunk) d chunks = AList.update n (c @ concat chunks) d"
proof (induction chunks arbitrary: d c)
  case Nil
  then show ?case by (simp add: update_triv)
next
  case (Cons chunk chunks)
  have "map_of (AList.update n (c @ chunk) d) n = Some (c @ chunk)"
    by (simp add: update_conv')
  from Cons.IH [OF this] Cons.prems show ?case
    by (simp add: write_bytes_def)
qed

lemma open_and_write:
  "foldl (\<lambda>d chunk. write_bytes d n chunk) (open_w d n) chunks = AList.update n (concat chunks) d"
proof -
  have "map_of (open_w d n) n = Some []"
    by (simp add: open_w_def update_conv')
  from write_chunks [OF this] show ?thesis
    by (simp add: open_w_def)
qed

subsection \<open>The \<open>try\<close> block and its handler\<close>

lemma try_fetch_no_response [simp]: "try_fetch ConnectError cf tag d = (Inl RequestError, d)"
  by (simp add: try_fetch_def)

lemma try_fetch_not_206 [simp]:
  "status \<noteq> 206 \<Longrightarrow> try_fetch (Response status chunks ok) cf tag d = (Inl ValueError, d)"
  by (simp add: try_fetch_def)

lemma try_fetch_broken [simp]:
  "try_fetch (Response 206 chunks False) cf tag d
     = (Inl RequestError, AList.update cf (concat chunks) d)"
  by (simp add: try_fetch_def open_and_write)

lemma try_fetch_written:
  "tag \<in> fst ` set d \<Longrightarrow>
   try_fetch (Response 206 chunks True) cf tag d
     = (Inr True, AList.delete tag (AList.update cf (concat chunks) d))"
  by (simp add: try_fetch_def open_and_write remove_present names_update Let_def)

lemma handler_no_cache_file:
  "cf \<notin> fst ` set d \<Longrightarrow> handler cf tag d = (Inl FileNotFoundError, d)"
  by (simp add: handler_def remove_absent)

lemma handler_cleans:
  "cf \<in> fst ` set d \<Longrightarrow> tag \<in> fst ` set d \<Longrightarrow> tag \<noteq> cf \<Longrightarrow>
   handler cf tag d = (Inr False, AList.delete tag (AList.delete cf d))"
  by (simp add: handler_def remove_present names_delete)

text \<open>
  The directory that the loop leaves when it runs to its end: the tag is there, the
  cache file of the target range is not, and no file of the directory contained the
  target.
\<close>

lemma after_completed_loop:
  assumes "check_existing s e (map fst (open_w d (tag_name s e))) (open_w d (tag_name s e))
             = (Inr Completed, d2)"
  shows "d2 = filter (\<lambda>p. \<not> superseded s e (fst p)) (open_w d (tag_name s e))"
    and "tag_name s e \<in> fst ` set d2"
    and "cache_file_name s e \<notin> fst ` set d2"
    and "\<forall>f \<in> fst ` set d. \<not> containing s e f"
proof -
  let ?d1 = "open_w d (tag_name s e)"
  from check_existing_completed [OF assms] have
    no: "\<forall>f \<in> set (map fst ?d1). \<not> containing s e f" and
    d2: "d2 = filter (\<lambda>p. \<not> (fst p \<in> set (map fst ?d1) \<and> superseded s e (fst p))) ?d1"
    by simp_all
  from d2 show eq: "d2 = filter (\<lambda>p. \<not> superseded s e (fst p)) ?d1"
    by (auto intro!: filter_cong)
  have "tag_name s e \<in> fst ` set ?d1" by (simp add: names_open_w)
  then obtain c where "(tag_name s e, c) \<in> set ?d1" by auto
  then have "(tag_name s e, c) \<in> set d2"
    by (simp add: eq superseded_def)
  then show "tag_name s e \<in> fst ` set d2" by force
  from no show "\<forall>f \<in> fst ` set d. \<not> containing s e f"
    by (simp add: names_open_w)
  have "containing s e (cache_file_name s e)"
    by (simp add: containing_def within_def)
  with no have "cache_file_name s e \<notin> fst ` set ?d1" by auto
  with names_filter [of "\<lambda>p. \<not> superseded s e (fst p)" ?d1]
  show "cache_file_name s e \<notin> fst ` set d2" unfolding eq by blast
qed

subsection \<open>The outcomes of the section, one by one\<close>

lemma locked_raise:
  assumes "check_existing s e (map fst (open_w d (tag_name s e))) (open_w d (tag_name s e)) = (Inl ex, d2)"
  shows "locked_section c u h s e d = (Inl ex, d2, [])"
  using assms by (simp add: locked_section_def Let_def)

lemma locked_abort:
  assumes "check_existing s e (map fst (open_w d (tag_name s e))) (open_w d (tag_name s e)) = (Inr Abort, d2)"
  shows "locked_section c u h s e d = (Inr False, AList.delete (tag_name s e) d2, [])"
proof -
  let ?d1 = "open_w d (tag_name s e)"
  from check_existing_aborted [OF assms] obtain l1 where
    d2: "d2 = filter (\<lambda>p. \<not> (fst p \<in> set l1 \<and> superseded s e (fst p))) ?d1"
    by blast
  have "tag_name s e \<in> fst ` set ?d1" by (simp add: names_open_w)
  then obtain c' where "(tag_name s e, c') \<in> set ?d1" by auto
  then have "(tag_name s e, c') \<in> set d2"
    by (simp add: d2 superseded_def)
  then have "tag_name s e \<in> fst ` set d2" by force
  with assms show ?thesis
    by (simp add: locked_section_def Let_def remove_present)
qed

lemma locked_no_host:
  assumes "check_existing s e (map fst (open_w d (tag_name s e))) (open_w d (tag_name s e)) = (Inr Completed, d2)"
    and "url_host u = Inl ex"
  shows "locked_section c u h s e d = (Inl ex, d2, [])"
  using assms by (simp add: locked_section_def Let_def)

lemma locked_fetch_fails:
  assumes "check_existing s e (map fst (open_w d (tag_name s e))) (open_w d (tag_name s e)) = (Inr Completed, d2)"
    and "url_host u = Inr host"
    and "c \<lparr>url = u, headers = build_headers h host s e\<rparr> = ConnectError \<or>
         (\<exists>status chunks ok. c \<lparr>url = u, headers = build_headers h host s e\<rparr> = Response status chunks ok
            \<and> status \<noteq> 206)"
  shows "locked_section c u h s e d
           = (Inl FileNotFoundError, d2, [\<lparr>url = u, headers = build_headers h host s e\<rparr>])"
proof -
  from after_completed_loop(3) [OF assms(1)] have "handler (cache_file_name s e) (tag_name s e) d2
      = (Inl FileNotFoundError, d2)"
    by (rule handler_no_cache_file)
  with assms show ?thesis
    by (auto simp: locked_section_def Let_def)
qed

lemma locked_written:
  assumes "check_existing s e (map fst (open_w d (tag_name s e))) (open_w d (tag_name s e)) = (Inr Completed, d2)"
    and "url_host u = Inr host"
    and "c \<lparr>url = u, headers = build_headers h host s e\<rparr> = Response 206 chunks True"
  shows "locked_section c u h s e d
           = (Inr True, AList.delete (tag_name s e) (AList.update (cache_file_name s e) (concat chunks) d2),
              [\<lparr>url = u, headers = build_headers h host s e\<rparr>])"
  using assms after_completed_loop(2) [OF assms(1)]
  by (simp add: locked_section_def Let_def try_fetch_written)

lemma locked_broken:
  assumes "check_existing s e (map fst (open_w d (tag_name s e))) (open_w d (tag_name s e)) = (Inr Completed, d2)"
    and "url_host u = Inr host"
    and "c \<lparr>url = u, headers = build_headers h host s e\<rparr> = Response 206 chunks False"
  shows "locked_section c u h s e d
           = (Inr False, AList.delete (tag_name s e) d2, [\<lparr>url = u, headers = build_headers h host s e\<rparr>])"
proof -
  let ?cf = "cache_file_name s e" and ?tag = "tag_name s e"
  let ?d3 = "AList.update ?cf (concat chunks) d2"
  note facts = after_completed_loop [OF assms(1)]
  have "handler ?cf ?tag ?d3 = (Inr False, AList.delete ?tag (AList.delete ?cf ?d3))"
    using facts(2) by (intro handler_cleans) (simp_all add: names_update tag_name_neq_cache_file_name)
  also have "AList.delete ?cf ?d3 = d2"
    using facts(3) by (rule delete_update_absent)
  finally show ?thesis
    using assms by (simp add: locked_section_def Let_def)
qed

text \<open>
  Every outcome leaves either a part of the directory (with the tag) or, on success, the
  new cache file next to the files that neither contain the target nor lie inside it.
\<close>

lemma locked_section_shape:
  assumes "locked_section c u h s e d = (res, d', reqs)"
  shows "(\<exists>P. d' = filter P (open_w d (tag_name s e))) \<or>
         (res = Inr True \<and> (\<forall>f \<in> fst ` set d. \<not> containing s e f) \<and>
          (\<exists>body. d' = AList.delete (tag_name s e) (AList.update (cache_file_name s e) body
                     (filter (\<lambda>p. \<not> superseded s e (fst p)) (open_w d (tag_name s e))))))"
proof -
  let ?d1 = "open_w d (tag_name s e)"
  let ?req = "\<lparr>url = u, headers = build_headers h host s e\<rparr>"
  obtain r d2 where chk: "check_existing s e (map fst ?d1) ?d1 = (r, d2)"
    by (cases "check_existing s e (map fst ?d1) ?d1") auto
  from check_existing_filter [OF chk] obtain P where d2: "d2 = filter P ?d1" by blast
  have part: "\<exists>Q. AList.delete (tag_name s e) d2 = filter Q ?d1"
    by (simp add: d2 delete_filter) blast
  show ?thesis
  proof (cases r)
    case (Inl ex)
    with chk assms d2 show ?thesis by (auto simp: locked_raise)
  next
    case (Inr le)
    show ?thesis
    proof (cases le)
      case Abort
      with Inr chk assms part show ?thesis by (auto simp: locked_abort)
    next
      case Completed
      with Inr chk have completed: "check_existing s e (map fst ?d1) ?d1 = (Inr Completed, d2)" by simp
      show ?thesis
      proof (cases "url_host u")
        case (Inl ex)
        from locked_no_host [OF completed Inl] assms d2 show ?thesis by auto
      next
        case host: (Inr host)
        let ?req = "\<lparr>url = u, headers = build_headers h host s e\<rparr>"
        show ?thesis
        proof (cases "c ?req")
          case ConnectError
          with locked_fetch_fails [OF completed host, of c h] assms d2 show ?thesis by auto
        next
          case (Response status chunks ok)
          show ?thesis
          proof (cases "status = 206")
            case False
            with Response locked_fetch_fails [OF completed host, of c h] assms d2 show ?thesis by auto
          next
            case True
            show ?thesis
            proof (cases ok)
              case True
              with \<open>status = 206\<close> Response locked_written [OF completed host, of c h chunks] assms
              have "res = Inr True"
                "d' = AList.delete (tag_name s e) (AList.update (cache_file_name s e) (concat chunks) d2)"
                by auto
              with after_completed_loop(1,4) [OF completed] show ?thesis by blast
            next
              case False
              with \<open>status = 206\<close> Response locked_broken [OF completed host, of c h chunks] assms part
              show ?thesis by auto
            qed
          qed
        qed
      qed
    qed
  qed
qed

section \<open>What the section preserves\<close>

lemma wf_dir_filter: "wf_dir d \<Longrightarrow> wf_dir (filter P d)"
  by (auto simp: wf_dir_def list_all_iff distinct_map_filter)

lemma wf_dir_delete: "wf_dir d \<Longrightarrow> wf_dir (AList.delete n d)"
  by (simp add: delete_filter wf_dir_filter)

lemma wf_dir_update:
  assumes "wf_dir d" and "is_cache_file n \<longrightarrow> file_range n \<noteq> None"
  shows "wf_dir (AList.update n c d)"
proof -
  have "set (map fst (AList.update n c d)) = insert n (set (map fst d))"
    using names_update [of n c d] by simp
  with assms show ?thesis
    by (simp add: wf_dir_def list_all_iff distinct_update del: set_map)
qed

lemma wf_dir_open_tag: "wf_dir d \<Longrightarrow> wf_dir (open_w d (tag_name s e))"
  unfolding open_w_def by (rule wf_dir_update) (simp_all add: not_is_cache_file_tag_name)

lemma pairwise_ranges_subset:
  assumes "pairwise_ranges rel d"
    and "\<forall>n \<in> fst ` set d'. n \<in> fst ` set d \<or> file_range n = None"
  shows "pairwise_ranges rel d'"
  unfolding pairwise_ranges_def
proof (intro ballI impI)
  fix f1 f2
  assume f: "f1 \<in> set (map fst d')" "f2 \<in> set (map fst d')" "f1 \<noteq> f2"
  show "case (file_range f1, file_range f2) of (Some r1, Some r2) \<Rightarrow> rel r1 r2 | _ \<Rightarrow> True"
  proof (cases "file_range f1 = None \<or> file_range f2 = None")
    case True
    then show ?thesis by (auto split: option.splits)
  next
    case False
    with f assms(2) have "f1 \<in> set (map fst d)" "f2 \<in> set (map fst d)" by auto
    with assms(1) f(3) show ?thesis
      unfolding pairwise_ranges_def by blast
  qed
qed

lemma pairwise_ranges_filter: "pairwise_ranges rel d \<Longrightarrow> pairwise_ranges rel (filter P d)"
proof (rule pairwise_ranges_subset)
  show "\<forall>n \<in> fst ` set (filter P d). n \<in> fst ` set d \<or> file_range n = None"
    using names_filter [of P d] by blast
qed

lemma pairwise_ranges_open_tag:
  "pairwise_ranges rel d \<Longrightarrow> pairwise_ranges rel (open_w d (tag_name s e))"
  by (rule pairwise_ranges_subset) (auto simp: names_open_w)

lemma pairwise_ranges_new_file:
  assumes "pairwise_ranges rel d"
    and "file_range n = Some r"
    and "\<And>m r'. m \<in> fst ` set d \<Longrightarrow> m \<noteq> n \<Longrightarrow> file_range m = Some r' \<Longrightarrow> rel r r' \<and> rel r' r"
    and "fst ` set d' \<subseteq> insert n (fst ` set d)"
  shows "pairwise_ranges rel d'"
  unfolding pairwise_ranges_def
proof (intro ballI impI)
  fix f1 f2
  assume f: "f1 \<in> set (map fst d')" "f2 \<in> set (map fst d')" "f1 \<noteq> f2"
  with assms(4) have mem: "f1 = n \<or> f1 \<in> set (map fst d)" "f2 = n \<or> f2 \<in> set (map fst d)"
    by auto
  show "case (file_range f1, file_range f2) of (Some r1, Some r2) \<Rightarrow> rel r1 r2 | _ \<Rightarrow> True"
  proof (cases "file_range f1")
    case None
    then show ?thesis by simp
  next
    case r1: (Some r1)
    show ?thesis
    proof (cases "file_range f2")
      case None
      with r1 show ?thesis by simp
    next
      case r2: (Some r2)
      consider "f1 = n" "f2 \<in> set (map fst d)" | "f2 = n" "f1 \<in> set (map fst d)"
        | "f1 \<in> set (map fst d)" "f2 \<in> set (map fst d)"
        using mem f(3) by blast
      then have "rel r1 r2"
      proof cases
        case 1
        with assms(2) r1 have "r1 = r" by simp
        moreover from 1 f(3) have "f2 \<in> fst ` set d" "f2 \<noteq> n" by simp_all
        ultimately show ?thesis using assms(3) [OF _ _ r2] by simp
      next
        case 2
        with assms(2) r2 have "r2 = r" by simp
        moreover from 2 f(3) have "f1 \<in> fst ` set d" "f1 \<noteq> n" by simp_all
        ultimately show ?thesis using assms(3) [OF _ _ r1] by simp
      next
        case 3
        with assms(1) f(3) r1 r2 show ?thesis
          unfolding pairwise_ranges_def by fastforce
      qed
      with r1 r2 show ?thesis by simp
    qed
  qed
qed

text \<open>The section keeps a directory well formed and free of nested ranges.\<close>

lemma locked_section_invariant:
  assumes "locked_section c u h s e d = (res, d', reqs)" and "wf_dir d" and "no_nested d"
  shows "wf_dir d' \<and> no_nested d'"
proof -
  let ?d1 = "open_w d (tag_name s e)"
  let ?d2 = "filter (\<lambda>p. \<not> superseded s e (fst p)) ?d1"
  from assms have d1: "wf_dir ?d1" "no_nested ?d1"
    by (simp_all add: wf_dir_open_tag no_nested_def pairwise_ranges_open_tag)
  from locked_section_shape [OF assms(1)] consider
    (part) P where "d' = filter P ?d1"
    | (new) body where "\<forall>f \<in> fst ` set d. \<not> containing s e f"
        "d' = AList.delete (tag_name s e) (AList.update (cache_file_name s e) body ?d2)"
    by blast
  then show ?thesis
  proof cases
    case part
    with d1 show ?thesis
      by (simp add: wf_dir_filter no_nested_def pairwise_ranges_filter)
  next
    case new
    have "wf_dir d'"
      unfolding new(2) using d1(1)
      by (intro wf_dir_delete wf_dir_update wf_dir_filter) simp_all
    moreover have "pairwise_ranges (\<lambda>r r'. \<not> within r r') d'"
    proof (rule pairwise_ranges_new_file [where n = "cache_file_name s e" and r = "(s, e)" and d = ?d2])
      show "pairwise_ranges (\<lambda>r r'. \<not> within r r') ?d2"
        using d1(2) by (simp add: no_nested_def pairwise_ranges_filter)
      show "file_range (cache_file_name s e) = Some (s, e)" by simp
      show "\<not> within (s, e) r' \<and> \<not> within r' (s, e)"
        if m: "m \<in> fst ` set ?d2" and "m \<noteq> cache_file_name s e" and r': "file_range m = Some r'"
        for m r'
      proof -
        from m have "\<not> superseded s e m" by auto
        moreover have "m \<noteq> tag_name s e" using r' by auto
        with m names_filter [of "\<lambda>p. \<not> superseded s e (fst p)" ?d1] have "m \<in> fst ` set d"
          unfolding names_open_w by blast
        with new(1) have "\<not> containing s e m" by blast
        ultimately show "\<not> within (s, e) r' \<and> \<not> within r' (s, e)"
          using r' by (simp add: superseded_def containing_def)
      qed
      show "fst ` set d' \<subseteq> insert (cache_file_name s e) (fst ` set ?d2)"
        unfolding new(2) by (auto simp: names_delete names_update)
    qed
    ultimately show ?thesis by (simp add: no_nested_def)
  qed
qed

section \<open>When the loop aborts and when it completes\<close>

lemma containing_tag_name [simp]: "\<not> containing s e (tag_name s' e')"
  by (simp add: containing_def)

lemma superseded_tag_name [simp]: "\<not> superseded s e (tag_name s' e')"
  by (simp add: superseded_def)

lemma containing_cache_file_name [simp]:
  "containing s e (cache_file_name s' e') \<longleftrightarrow> s' \<le> s \<and> e \<le> e'"
  by (simp add: containing_def within_def)

lemma superseded_cache_file_name [simp]:
  "superseded s e (cache_file_name s' e') \<longleftrightarrow> s \<le> s' \<and> e' \<le> e"
  by (simp add: superseded_def within_def)

lemma cache_file_name_inject [simp]:
  "cache_file_name s e = cache_file_name s' e' \<longleftrightarrow> s = s' \<and> e = e'"
proof
  assume "cache_file_name s e = cache_file_name s' e'"
  then have "file_range (cache_file_name s e) = file_range (cache_file_name s' e')" by simp
  then show "s = s' \<and> e = e'" by simp
qed simp

lemma cache_file_name_neq_tag_name [simp]:
  "cache_file_name s e \<noteq> tag_name s' e'" "tag_name s' e' \<noteq> cache_file_name s e"
  using tag_name_neq_cache_file_name [of s' e' s e] by auto

lemma wf_listing:
  assumes "wf_dir d"
  shows "\<forall>f \<in> set (map fst (open_w d (tag_name s e))). is_cache_file f \<longrightarrow> file_range f \<noteq> None"
    and "distinct (map fst (open_w d (tag_name s e)))"
  using wf_dir_open_tag [OF assms, of s e] by (simp_all add: wf_dir_def list_all_iff)

text \<open>
  On a well-formed directory the loop aborts when some cache file contains the target
  range, and runs to its end when none does.
\<close>

lemma loop_returns:
  assumes "wf_dir d"
  shows "\<exists>r d2. check_existing s e (map fst (open_w d (tag_name s e))) (open_w d (tag_name s e))
           = (Inr r, d2)"
  using wf_listing [OF assms, of s e] by (intro check_existing_returns) simp_all

lemma loop_completes:
  assumes "wf_dir d" and "\<forall>f \<in> fst ` set d. \<not> containing s e f"
  shows "\<exists>d2. check_existing s e (map fst (open_w d (tag_name s e))) (open_w d (tag_name s e))
           = (Inr Completed, d2)"
proof -
  from loop_returns [OF assms(1)] obtain r d2 where
    chk: "check_existing s e (map fst (open_w d (tag_name s e))) (open_w d (tag_name s e)) = (Inr r, d2)"
    by blast
  show ?thesis
  proof (cases r)
    case Abort
    with chk have "check_existing s e (map fst (open_w d (tag_name s e))) (open_w d (tag_name s e))
        = (Inr Abort, d2)"
      by simp
    from check_existing_aborted [OF this] obtain l1 f l2 where
      l: "map fst (open_w d (tag_name s e)) = l1 @ f # l2" and f: "containing s e f"
      by blast
    have "f \<in> set (l1 @ f # l2)" by simp
    then have "f \<in> fst ` set (open_w d (tag_name s e))"
      unfolding l [symmetric] by simp
    then have "f = tag_name s e \<or> f \<in> fst ` set d"
      by (simp add: names_open_w)
    with f assms(2) show ?thesis by auto
  next
    case Completed
    with chk show ?thesis by blast
  qed
qed

lemma loop_aborts:
  assumes "wf_dir d" and "f \<in> fst ` set d" and "containing s e f"
  shows "\<exists>d2. check_existing s e (map fst (open_w d (tag_name s e))) (open_w d (tag_name s e))
           = (Inr Abort, d2)"
proof -
  from loop_returns [OF assms(1)] obtain r d2 where
    chk: "check_existing s e (map fst (open_w d (tag_name s e))) (open_w d (tag_name s e)) = (Inr r, d2)"
    by blast
  show ?thesis
  proof (cases r)
    case Abort
    with chk show ?thesis by blast
  next
    case Completed
    with chk after_completed_loop(4) [of s e d d2] assms(2,3) show ?thesis by blast
  qed
qed

lemma delete_filter_commute: "AList.delete n (filter P d) = filter P (AList.delete n d)"
  by (simp add: delete_filter conj_commute)

lemma delete_open_w: "AList.delete n (open_w d n) = AList.delete n d"
  by (simp add: open_w_def delete_update_same)

lemma filter_open_tag:
  "filter (\<lambda>p. \<not> superseded s e (fst p)) (open_w d (tag_name s' e'))
     = open_w (filter (\<lambda>p. \<not> superseded s e (fst p)) d) (tag_name s' e')"
  by (induction d) (auto simp: open_w_def)

text \<open>
  The outcomes on a well-formed directory in which no file contains the target range,
  when the URL has a host part.
\<close>

lemma locked_section_written:
  assumes "wf_dir d" and "\<forall>f \<in> fst ` set d. \<not> containing s e f" and "url_host u = Inr host"
    and "c \<lparr>url = u, headers = build_headers h host s e\<rparr> = Response 206 chunks True"
  shows "locked_section c u h s e d
           = (Inr True,
              AList.update (cache_file_name s e) (concat chunks)
                (filter (\<lambda>p. \<not> superseded s e (fst p)) (AList.delete (tag_name s e) d)),
              [\<lparr>url = u, headers = build_headers h host s e\<rparr>])"
proof -
  from loop_completes [OF assms(1,2)] obtain d2 where
    chk: "check_existing s e (map fst (open_w d (tag_name s e))) (open_w d (tag_name s e))
            = (Inr Completed, d2)"
    by blast
  note d2 = after_completed_loop(1) [OF chk]
  have "AList.delete (tag_name s e) (AList.update (cache_file_name s e) (concat chunks) d2)
          = AList.update (cache_file_name s e) (concat chunks) (AList.delete (tag_name s e) d2)"
    by (simp add: delete_update)
  also have "AList.delete (tag_name s e) d2
          = filter (\<lambda>p. \<not> superseded s e (fst p)) (AList.delete (tag_name s e) d)"
    by (simp add: d2 delete_filter_commute delete_open_w)
  finally show ?thesis
    using locked_written [where c = c and h = h, OF chk assms(3,4)] by simp
qed

lemma locked_section_broken:
  assumes "wf_dir d" and "\<forall>f \<in> fst ` set d. \<not> containing s e f" and "url_host u = Inr host"
    and "c \<lparr>url = u, headers = build_headers h host s e\<rparr> = Response 206 chunks False"
  shows "locked_section c u h s e d
           = (Inr False, filter (\<lambda>p. \<not> superseded s e (fst p)) (AList.delete (tag_name s e) d),
              [\<lparr>url = u, headers = build_headers h host s e\<rparr>])"
proof -
  from loop_completes [OF assms(1,2)] obtain d2 where
    chk: "check_existing s e (map fst (open_w d (tag_name s e))) (open_w d (tag_name s e))
            = (Inr Completed, d2)"
    by blast
  note d2 = after_completed_loop(1) [OF chk]
  have "AList.delete (tag_name s e) d2
          = filter (\<lambda>p. \<not> superseded s e (fst p)) (AList.delete (tag_name s e) d)"
    by (simp add: d2 delete_filter_commute delete_open_w)
  then show ?thesis
    using locked_broken [where c = c and h = h, OF chk assms(3,4)] by simp
qed

text \<open>
  The defect behind claims C1 and C2: when the request fails before the cache file is
  opened (the client raises, or the status is not 206), the handler's first removal
  raises \<open>FileNotFoundError\<close> and the tag is left in the directory.
\<close>

lemma locked_section_fetch_fails:
  assumes "wf_dir d" and "\<forall>f \<in> fst ` set d. \<not> containing s e f" and "url_host u = Inr host"
    and "c \<lparr>url = u, headers = build_headers h host s e\<rparr> = ConnectError \<or>
         (\<exists>status chunks ok. c \<lparr>url = u, headers = build_headers h host s e\<rparr> = Response status chunks ok
            \<and> status \<noteq> 206)"
  shows "locked_section c u h s e d
           = (Inl FileNotFoundError,
              open_w (filter (\<lambda>p. \<not> superseded s e (fst p)) d) (tag_name s e),
              [\<lparr>url = u, headers = build_headers h host s e\<rparr>])"
proof -
  from loop_completes [OF assms(1,2)] obtain d2 where
    chk: "check_existing s e (map fst (open_w d (tag_name s e))) (open_w d (tag_name s e))
            = (Inr Completed, d2)"
    by blast
  from after_completed_loop(1) [OF chk] have "d2 = open_w (filter (\<lambda>p. \<not> superseded s e (fst p)) d) (tag_name s e)"
    by (simp add: filter_open_tag)
  with locked_fetch_fails [where c = c and h = h, OF chk assms(3,4)] show ?thesis by simp
qed

text \<open>When a file of the directory contains the target range.\<close>

lemma locked_section_aborts:
  assumes "wf_dir d" and "f \<in> fst ` set d" and "containing s e f"
  shows "\<exists>l1. set l1 \<subseteq> {g \<in> fst ` set d. \<not> containing s e g} \<and>
           locked_section c u h s e d
             = (Inr False,
                filter (\<lambda>p. \<not> (fst p \<in> set l1 \<and> superseded s e (fst p))) (AList.delete (tag_name s e) d),
                [])"
proof -
  let ?d1 = "open_w d (tag_name s e)"
  from loop_aborts [OF assms] obtain d2 where
    chk: "check_existing s e (map fst ?d1) ?d1 = (Inr Abort, d2)"
    by blast
  from check_existing_aborted [OF chk] obtain l1 g l2 where
    l: "map fst ?d1 = l1 @ g # l2" and l1: "\<forall>h \<in> set l1. \<not> containing s e h" and
    d2: "d2 = filter (\<lambda>p. \<not> (fst p \<in> set l1 \<and> superseded s e (fst p))) ?d1"
    by blast
  have "set l1 \<subseteq> set (map fst ?d1)" unfolding l by auto
  then have "set l1 \<subseteq> insert (tag_name s e) (fst ` set d)"
    by (simp add: names_open_w)
  moreover define l1' where "l1' = filter (\<lambda>n. n \<noteq> tag_name s e) l1"
  ultimately have sub: "set l1' \<subseteq> {g \<in> fst ` set d. \<not> containing s e g}"
    using l1 by auto
  have same: "(fst p \<in> set l1 \<and> superseded s e (fst p)) = (fst p \<in> set l1' \<and> superseded s e (fst p))" for p
    by (cases "fst p = tag_name s e") (auto simp: l1'_def)
  have "AList.delete (tag_name s e) d2
          = filter (\<lambda>p. \<not> (fst p \<in> set l1' \<and> superseded s e (fst p))) (AList.delete (tag_name s e) d)"
    by (simp add: d2 delete_filter_commute delete_open_w same)
  with locked_abort [OF chk, of c u h] sub show ?thesis by auto
qed

section \<open>\<open>write_cache_file\<close> as a whole\<close>

lemma write_cache_file_eligible:
  assumes "target_range request_info = Some (s, e)"
  shows "write_cache_file ext request_info h c w =
     (case locked_section c
             (get_or_cache_alist_raw_url ext (path (file_info request_info)) (host_url request_info))
             h s e
             (case files w (get_hash_subdirectory_from_path ext (path (file_info request_info))
                              (file_type (file_info request_info))) of
                None \<Rightarrow> [] | Some d \<Rightarrow> d) of
        (res, d', reqs) \<Rightarrow>
          (map_sum id Some res,
           w\<lparr>files := (files w)(get_hash_subdirectory_from_path ext (path (file_info request_info))
                                   (file_type (file_info request_info)) \<mapsto> d'),
             sent := sent w @ reqs\<rparr>))"
  using assms
  by (auto simp: write_cache_file_def makedirs_def Let_def split: option.splits prod.splits)




text \<open>
  Claim C7. With a status that is not write-eligible the call changes nothing: no
  directory, cache file or tag is created or removed and no request is sent. What it
  returns is the value of the bare \<open>return\<close> of line 89, \<open>None\<close>, not the boolean
  \<open>False\<close> that the signature \<open>-> bool\<close> and the other failure paths give.
\<close>

theorem write_cache_file_refuses:
  "write_cache_file ext (request_info\<lparr>cache_status := MISS\<rparr>) req_header client w = (Inr None, w)"
  by (simp add: write_cache_file_def target_range_def)

section \<open>No range inside another: what the writes preserve\<close>

lemma wf_dir_Nil [simp]: "wf_dir []"
  by (simp add: wf_dir_def)

lemma no_nested_Nil [simp]: "no_nested []"
  by (simp add: no_nested_def pairwise_ranges_def)

lemma write_cache_file_invariant:
  assumes "cache_dir_ok (files w) k"
  shows "cache_dir_ok (files (snd (write_cache_file ext request_info h c w))) k"
proof (cases "target_range request_info")
  case None
  with assms show ?thesis by (simp add: write_cache_file_def)
next
  case (Some r)
  obtain s e where r: "r = (s, e)" by (cases r)
  let ?k = "get_hash_subdirectory_from_path ext (path (file_info request_info))
              (file_type (file_info request_info))"
  let ?d = "case files w ?k of None \<Rightarrow> [] | Some d \<Rightarrow> d"
  let ?u = "get_or_cache_alist_raw_url ext (path (file_info request_info)) (host_url request_info)"
  obtain res d' reqs where sec: "locked_section c ?u h s e ?d = (res, d', reqs)"
    by (cases "locked_section c ?u h s e ?d") auto
  with Some r have after: "files (snd (write_cache_file ext request_info h c w)) = (files w)(?k \<mapsto> d')"
    by (simp add: write_cache_file_eligible)
  show ?thesis
  proof (cases "k = ?k")
    case True
    with assms have "wf_dir ?d \<and> no_nested ?d"
      by (auto simp: cache_dir_ok_def split: option.splits)
    with locked_section_invariant [OF sec] have "wf_dir d' \<and> no_nested d'" by blast
    with True after show ?thesis by (simp add: cache_dir_ok_def)
  next
    case False
    with assms after show ?thesis by (simp add: cache_dir_ok_def)
  qed
qed

lemma write_all_invariant:
  "cache_dir_ok (files w) k \<Longrightarrow> cache_dir_ok (files (write_all ext calls w)) k"
proof (induction calls arbitrary: w)
  case Nil
  then show ?case by simp
next
  case (Cons call calls)
  obtain request_info h c where "call = (request_info, h, c)" by (cases call)
  with Cons show ?case by (simp add: write_cache_file_invariant)
qed

text \<open>
  Claim C3, as amended. Take any sequence of calls of \<open>write_cache_file\<close>, with any
  requests and any behaviour of the upstream, from a state in which the cache directory
  \<open>k\<close> does not exist or is well formed with no range of a cache file inside the range of
  another. After all the calls the directory, if it exists, is well formed and for any
  two distinct cache files in it neither range lies inside the other. (Ranges that
  overlap without one containing the other are both kept: see the counterexample.)
\<close>

theorem write_all_no_nested_ranges:
  assumes "cache_dir_ok (files w) k" and "files (write_all ext calls w) k = Some d"
  shows "wf_dir d \<and> no_nested d"
  using write_all_invariant [OF assms(1), of ext calls] assms(2)
  by (simp add: cache_dir_ok_def)

subsection \<open>The examples\<close>

lemma example_names:
  "cache_file_name 0 999 = ''cache_file_0_999''"
  "tag_name 0 999 = ''cache_file_0_999.tag''"
  "cache_file_name 500 1999 = ''cache_file_500_1999''"
  "cache_file_name 500 600 = ''cache_file_500_600''"
  by (simp_all add: tag_name_def cache_file_name_def str_of_int_def str_of_nat.simps
      digit_char_def digits_def)

lemma example_requests:
  "target_range head_request = Some (0, 999)"
  "target_range tail_request = Some (500, 1999)"
  "get_hash_subdirectory_from_path example_ext (path (file_info head_request))
     (file_type (file_info head_request)) = movie_dir"
  "get_hash_subdirectory_from_path example_ext (path (file_info tail_request))
     (file_type (file_info tail_request)) = movie_dir"
  "get_or_cache_alist_raw_url example_ext (path (file_info head_request)) (host_url head_request)
     = ''http://alist:5244/d/movies/a.mkv''"
  "get_or_cache_alist_raw_url example_ext (path (file_info tail_request)) (host_url tail_request)
     = ''http://alist:5244/d/movies/a.mkv''"
  by (simp_all add: target_range_def head_request_def tail_request_def movie_def example_ext_def
      movie_dir_def)

lemma example_host: "url_host ''http://alist:5244/d/movies/a.mkv'' = Inr ''alist:5244''"
  by (simp add: url_host_def)

lemma first_write:
  "write_cache_file example_ext head_request None (serving [[1, 2, 3]]) empty_world
     = (Inr (Some True),
        \<lparr>files = (\<lambda>k. None)(movie_dir \<mapsto> [(cache_file_name 0 999, [1, 2, 3])]),
          sent = [\<lparr>url = ''http://alist:5244/d/movies/a.mkv'',
                   headers = build_headers None ''alist:5244'' 0 999\<rparr>]\<rparr>)"
proof -
  have "locked_section (serving [[1, 2, 3]]) ''http://alist:5244/d/movies/a.mkv'' None 0 999 []
      = (Inr True, AList.update (cache_file_name 0 999) (concat [[1, 2, 3]])
           (filter (\<lambda>p. \<not> superseded 0 999 (fst p)) (AList.delete (tag_name 0 999) [])),
         [\<lparr>url = ''http://alist:5244/d/movies/a.mkv'', headers = build_headers None ''alist:5244'' 0 999\<rparr>])"
    by (rule locked_section_written) (simp_all add: example_host serving_def)
  then show ?thesis
    by (simp add: write_cache_file_eligible example_requests empty_world_def)
qed

lemma second_write:
  "write_cache_file example_ext tail_request None (serving [[4, 5]])
     \<lparr>files = (\<lambda>k. None)(movie_dir \<mapsto> [(cache_file_name 0 999, [1, 2, 3])]), sent = reqs\<rparr>
     = (Inr (Some True),
        \<lparr>files = (\<lambda>k. None)(movie_dir \<mapsto>
            [(cache_file_name 0 999, [1, 2, 3]), (cache_file_name 500 1999, [4, 5])]),
          sent = reqs @ [\<lparr>url = ''http://alist:5244/d/movies/a.mkv'',
                   headers = build_headers None ''alist:5244'' 500 1999\<rparr>]\<rparr>)"
proof -
  let ?d = "[(cache_file_name 0 999, [1, 2, 3 :: byte])]"
  have "locked_section (serving [[4, 5]]) ''http://alist:5244/d/movies/a.mkv'' None 500 1999 ?d
      = (Inr True, AList.update (cache_file_name 500 1999) (concat [[4, 5]])
           (filter (\<lambda>p. \<not> superseded 500 1999 (fst p)) (AList.delete (tag_name 500 1999) ?d)),
         [\<lparr>url = ''http://alist:5244/d/movies/a.mkv'', headers = build_headers None ''alist:5244'' 500 1999\<rparr>])"
    by (rule locked_section_written) (simp_all add: example_host serving_def wf_dir_def)
  then show ?thesis
    by (simp add: write_cache_file_eligible example_requests)
qed

text \<open>
  Claim C3 as stated fails: from the empty cache, a write of the head range \<open>[0, 999]\<close>
  and then a write of the tail range \<open>[500, 1999]\<close> both succeed, and the directory then
  holds \<open>cache_file_0_999\<close> and \<open>cache_file_500_1999\<close>, whose ranges share the offsets
  500 to 999. The loop only looks for a range that contains the other.
\<close>

theorem two_writes_overlap:
  "fst (write_cache_file example_ext head_request None (serving [[1, 2, 3]]) empty_world)
     = Inr (Some True)
   \<and> fst (write_cache_file example_ext tail_request None (serving [[4, 5]])
        (snd (write_cache_file example_ext head_request None (serving [[1, 2, 3]]) empty_world)))
     = Inr (Some True)
   \<and> files (write_all example_ext
        [(head_request, None, serving [[1, 2, 3]]), (tail_request, None, serving [[4, 5]])]
        empty_world) movie_dir
     = Some [(''cache_file_0_999'', [1, 2, 3]), (''cache_file_500_1999'', [4, 5])]
   \<and> \<not> no_overlap [(''cache_file_0_999'', [1, 2, 3]), (''cache_file_500_1999'', [4, 5])]"
proof -
  have "\<not> no_overlap [(cache_file_name 0 999, [1, 2, 3]), (cache_file_name 500 1999, [4, 5])]"
    by (simp add: no_overlap_def pairwise_ranges_def apart_def)
  then show ?thesis
    by (simp add: first_write second_write example_names [symmetric])
qed

theorem write_all_no_nested_ranges_witness:
  "cache_dir_ok (files empty_world) movie_dir
   \<and> files (write_all example_ext
        [(head_request, None, serving [[1, 2, 3]]), (tail_request, None, serving [[4, 5]])]
        empty_world) movie_dir
     = Some [(''cache_file_0_999'', [1, 2, 3]), (''cache_file_500_1999'', [4, 5])]
   \<and> no_nested [(''cache_file_0_999'', [1, 2, 3]), (''cache_file_500_1999'', [4, 5])]"
proof -
  have ok: "cache_dir_ok (files empty_world) movie_dir"
    by (simp add: cache_dir_ok_def empty_world_def)
  have final: "files (write_all example_ext
        [(head_request, None, serving [[1, 2, 3]]), (tail_request, None, serving [[4, 5]])]
        empty_world) movie_dir
     = Some [(''cache_file_0_999'', [1, 2, 3]), (''cache_file_500_1999'', [4, 5])]"
    by (simp add: first_write second_write example_names [symmetric])
  from write_all_no_nested_ranges [OF ok final] ok final show ?thesis by simp
qed

section \<open>A failed fetch\<close>

text \<open>
  Whenever the section returns, with \<open>True\<close> or with \<open>False\<close>, the tag of the attempt is
  gone: a tag is left behind only by a call that raises.
\<close>

lemma tag_removed_on_return:
  assumes "locked_section c u h s e d = (Inr b, d', reqs)"
  shows "tag_name s e \<notin> fst ` set d'"
proof -
  let ?d1 = "open_w d (tag_name s e)"
  obtain r d2 where chk: "check_existing s e (map fst ?d1) ?d1 = (r, d2)"
    by (cases "check_existing s e (map fst ?d1) ?d1") auto
  show ?thesis
  proof (cases r)
    case (Inl ex)
    with chk assms show ?thesis by (simp add: locked_raise)
  next
    case (Inr le)
    show ?thesis
    proof (cases le)
      case Abort
      with Inr chk assms have "d' = AList.delete (tag_name s e) d2"
        by (simp add: locked_abort)
      then show ?thesis by (simp add: delete_notin_dom)
    next
      case Completed
      with Inr chk have completed: "check_existing s e (map fst ?d1) ?d1 = (Inr Completed, d2)"
        by simp
      show ?thesis
      proof (cases "url_host u")
        case (Inl ex)
        from locked_no_host [OF completed Inl] assms show ?thesis by simp
      next
        case host: (Inr host)
        let ?req = "\<lparr>url = u, headers = build_headers h host s e\<rparr>"
        show ?thesis
        proof (cases "c ?req")
          case ConnectError
          with locked_fetch_fails [OF completed host, of c h] assms show ?thesis by simp
        next
          case (Response status chunks ok)
          show ?thesis
          proof (cases "status = 206")
            case False
            with Response locked_fetch_fails [OF completed host, of c h] assms show ?thesis by simp
          next
            case True
            with Response locked_written [OF completed host, of c h chunks]
              locked_broken [OF completed host, of c h chunks] assms
            have "d' = AList.delete (tag_name s e) (AList.update (cache_file_name s e) (concat chunks) d2)
                \<or> d' = AList.delete (tag_name s e) d2"
              by (cases ok) auto
            then show ?thesis
              using delete_notin_dom [of "tag_name s e"] by (elim disjE) simp_all
          qed
        qed
      qed
    qed
  qed
qed

lemma read_cache_file_missing_directory:
  "fs (get_hash_subdirectory_from_path ext (path (file_info request_info))
         (file_type (file_info request_info))) = None \<Longrightarrow>
   read_cache_file ext request_info fs = Inl FileNotFoundError"
  by (simp add: read_cache_file_def listdir_def)

lemma refused_write:
  "write_cache_file example_ext head_request None (refusing 404) empty_world
     = (Inl FileNotFoundError,
        \<lparr>files = (\<lambda>k. None)(movie_dir \<mapsto> [(tag_name 0 999, [])]),
          sent = [\<lparr>url = ''http://alist:5244/d/movies/a.mkv'',
                   headers = build_headers None ''alist:5244'' 0 999\<rparr>]\<rparr>)"
proof -
  have "locked_section (refusing 404) ''http://alist:5244/d/movies/a.mkv'' None 0 999 []
      = (Inl FileNotFoundError, open_w (filter (\<lambda>p. \<not> superseded 0 999 (fst p)) []) (tag_name 0 999),
         [\<lparr>url = ''http://alist:5244/d/movies/a.mkv'', headers = build_headers None ''alist:5244'' 0 999\<rparr>])"
    by (rule locked_section_fetch_fails) (auto simp: example_host refusing_def)
  then show ?thesis
    by (simp add: write_cache_file_eligible example_requests empty_world_def open_w_def)
qed

text \<open>
  Claim C1 fails on the code at these inputs. From the empty cache, a write whose
  upstream answers 404 does not return \<open>False\<close>: the handler's removal of the cache
  file, which was never opened, raises \<open>FileNotFoundError\<close>, and the exception leaves
  \<open>write_cache_file\<close>. A read when the cache directory is missing does not return \<open>None\<close>:
  \<open>os.listdir\<close> raises \<open>FileNotFoundError\<close>, which \<open>read_cache_file\<close> does not catch.
\<close>

theorem failures_escape_as_exceptions:
  "fst (write_cache_file example_ext head_request None (refusing 404) empty_world)
     = Inl FileNotFoundError
   \<and> read_cache_file example_ext head_request (files empty_world) = Inl FileNotFoundError"
proof -
  have "read_cache_file example_ext head_request (files empty_world) = Inl FileNotFoundError"
    by (simp add: read_cache_file_def listdir_def empty_world_def)
  then show ?thesis
    by (simp add: refused_write)
qed

text \<open>
  Claim C2 fails on the code at the same input: after the write whose upstream answers
  404, the tag \<open>cache_file_0_999.tag\<close> of the attempt is still in the directory, because
  the exception leaves the handler before the line that removes the tag.
\<close>

theorem tag_left_after_refused_fetch:
  "files (snd (write_cache_file example_ext head_request None (refusing 404) empty_world)) movie_dir
     = Some [(''cache_file_0_999.tag'', [])]"
  by (simp add: refused_write example_names [symmetric])

section \<open>Writing a range that is already cached\<close>

lemma map_of_filter_kept:
  "(\<And>p. p \<in> set d \<Longrightarrow> fst p = n \<Longrightarrow> P p) \<Longrightarrow> map_of (filter P d) n = map_of d n"
  by (induction d) auto

lemma within_trans: "within r1 r2 \<Longrightarrow> within r2 r3 \<Longrightarrow> within r1 r3"
  by (auto simp: within_def)

lemma no_nestedD:
  assumes "no_nested d" and "f1 \<in> fst ` set d" and "f2 \<in> fst ` set d" and "f1 \<noteq> f2"
    and "file_range f1 = Some r1" and "file_range f2 = Some r2"
  shows "\<not> within r1 r2"
proof -
  from assms(2,3) have m: "f1 \<in> set (map fst d)" "f2 \<in> set (map fst d)" by simp_all
  from assms(1) have "\<forall>f1 \<in> set (map fst d). \<forall>f2 \<in> set (map fst d). f1 \<noteq> f2 \<longrightarrow>
      (case (file_range f1, file_range f2) of (Some r1, Some r2) \<Rightarrow> \<not> within r1 r2 | _ \<Rightarrow> True)"
    unfolding no_nested_def pairwise_ranges_def .
  from bspec [OF bspec [OF this m(1)] m(2)] assms(4) have
    "case (file_range f1, file_range f2) of (Some r1, Some r2) \<Rightarrow> \<not> within r1 r2 | _ \<Rightarrow> True"
    by blast
  with assms(5,6) show ?thesis by simp
qed

text \<open>
  Claim C5. Let the target range \<open>[s, e]\<close> of a call of \<open>write_cache_file\<close> lie inside the
  range of a cache file \<open>f\<close> of the (well-formed) cache directory. Then the call returns
  \<open>False\<close> and issues no request; no name is added to the directory, and every cache
  file whose range contains the target, \<open>f\<close> among them, is there afterwards with the
  content it had. When moreover the directory is in the state the writer itself
  maintains (no range inside another, no tag of this range left behind), the whole
  state after the call is the state before it.
\<close>

theorem write_of_cached_range_changes_nothing:
  fixes ext :: externals and request_info :: RequestInfo
  defines "k \<equiv> get_hash_subdirectory_from_path ext (path (file_info request_info))
                  (file_type (file_info request_info))"
  assumes target: "target_range request_info = Some (s, e)"
    and dir: "files w k = Some d" and wf: "wf_dir d"
    and f: "f \<in> fst ` set d" "containing s e f"
    and call: "write_cache_file ext request_info req_header client w = (result, w')"
  shows "result = Inr (Some False) \<and> sent w' = sent w \<and>
         (\<exists>d'. files w' k = Some d' \<and> fst ` set d' \<subseteq> fst ` set d \<and>
               (\<forall>g. containing s e g \<longrightarrow> map_of d' g = map_of d g)) \<and>
         (no_nested d \<and> tag_name s e \<notin> fst ` set d \<longrightarrow> w' = w)"
proof -
  let ?u = "get_or_cache_alist_raw_url ext (path (file_info request_info)) (host_url request_info)"
  from locked_section_aborts [OF wf f, of client ?u req_header] obtain l1 where
    l1: "set l1 \<subseteq> {g \<in> fst ` set d. \<not> containing s e g}" and
    sec: "locked_section client ?u req_header s e d
            = (Inr False,
               filter (\<lambda>p. \<not> (fst p \<in> set l1 \<and> superseded s e (fst p))) (AList.delete (tag_name s e) d),
               [])"
    by blast
  let ?d' = "filter (\<lambda>p. \<not> (fst p \<in> set l1 \<and> superseded s e (fst p))) (AList.delete (tag_name s e) d)"
  from call target dir sec have res: "result = Inr (Some False)"
    and w': "w' = w\<lparr>files := (files w)(k \<mapsto> ?d'), sent := sent w\<rparr>"
    by (auto simp: write_cache_file_eligible k_def)
  have names: "fst ` set ?d' \<subseteq> fst ` set d"
    using names_filter [of _ "AList.delete (tag_name s e) d"] names_delete [of "tag_name s e" d]
    by blast
  have kept: "map_of ?d' g = map_of d g" if g: "containing s e g" for g
  proof -
    from g have "g \<noteq> tag_name s e" by auto
    then have "map_of (AList.delete (tag_name s e) d) g = map_of d g" by simp
    moreover from g l1 have "g \<notin> set l1" by auto
    then have "map_of ?d' g = map_of (AList.delete (tag_name s e) d) g"
      by (intro map_of_filter_kept) simp
    ultimately show ?thesis by simp
  qed
  have same: "w' = w" if nn: "no_nested d" and tag: "tag_name s e \<notin> fst ` set d"
  proof -
    from f(2) obtain rf where rf: "file_range f = Some rf" "within (s, e) rf"
      by (auto simp: containing_def split: option.splits)
    have "\<not> (n \<in> set l1 \<and> superseded s e n)" for n
    proof
      assume n: "n \<in> set l1 \<and> superseded s e n"
      then obtain rn where rn: "file_range n = Some rn" "within rn (s, e)"
        by (auto simp: superseded_def split: option.splits)
      from n l1 have "n \<in> fst ` set d" "\<not> containing s e n" by auto
      with f(2) have "n \<noteq> f" by auto
      from no_nestedD [OF nn \<open>n \<in> fst ` set d\<close> f(1) this rn(1) rf(1)] within_trans [OF rn(2) rf(2)]
      show False by simp
    qed
    then have "?d' = AList.delete (tag_name s e) d" by simp
    also from tag have "\<dots> = d" by simp
    finally have "(files w)(k \<mapsto> ?d') = files w"
      using dir by (simp add: fun_upd_idem)
    with w' show ?thesis by simp
  qed
  from res w' names kept same show ?thesis by auto
qed

theorem write_of_cached_range_changes_nothing_witness:
  "write_cache_file example_ext head_request None (serving [[4, 5]])
     (movie_world [(''cache_file_0_1999'', [1, 2, 3])])
   = (Inr (Some False), movie_world [(''cache_file_0_1999'', [1, 2, 3])])"
proof -
  let ?d = "[(cache_file_name 0 1999, [1, 2, 3 :: byte])]"
  obtain result w' where call: "write_cache_file example_ext head_request None (serving [[4, 5]])
      (movie_world ?d) = (result, w')"
    by (cases "write_cache_file example_ext head_request None (serving [[4, 5]]) (movie_world ?d)")
  have name: "cache_file_name 0 1999 = ''cache_file_0_1999''"
    by (simp add: cache_file_name_def str_of_int_def str_of_nat.simps digit_char_def digits_def)
  have dir: "files (movie_world ?d) (get_hash_subdirectory_from_path example_ext
      (path (file_info head_request)) (file_type (file_info head_request))) = Some ?d"
    by (simp add: example_requests movie_world_def)
  have wf: "wf_dir ?d" by (simp add: wf_dir_def)
  have f: "cache_file_name 0 1999 \<in> fst ` set ?d" "containing 0 999 (cache_file_name 0 1999)"
    by simp_all
  have inv: "no_nested ?d \<and> tag_name 0 999 \<notin> fst ` set ?d"
    by (simp add: no_nested_def pairwise_ranges_def)
  from write_of_cached_range_changes_nothing [OF example_requests(1) dir wf f call] inv
  have "result = Inr (Some False)" "w' = movie_world ?d" by simp_all
  with call show ?thesis by (simp add: name)
qed

section \<open>Writing a range that contains a cached one\<close>

lemma example_loop:
  "check_existing 0 999 (map fst (open_w [(cache_file_name 500 600, old)] (tag_name 0 999)))
     (open_w [(cache_file_name 500 600, old)] (tag_name 0 999))
   = (Inr Completed, [(tag_name 0 999, [])])"
proof -
  have "open_w [(cache_file_name 500 600, old)] (tag_name 0 999)
      = [(cache_file_name 500 600, old), (tag_name 0 999, [])]"
    by (simp add: open_w_def)
  moreover have "check_existing 0 999 [cache_file_name 500 600, tag_name 0 999]
      [(cache_file_name 500 600, old), (tag_name 0 999, [])] = (Inr Completed, [(tag_name 0 999, [])])"
    by (simp add: check_existing_remove [where r = "(500, 600)"] check_existing_skip
        not_is_cache_file_tag_name within_def remove_def)
  ultimately show ?thesis by simp
qed

text \<open>
  Claim C6. Let \<open>write_cache_file\<close> run with the target range \<open>[0, 999]\<close> on a directory
  that holds the file \<open>cache_file_500_600\<close>. The loop over the listing removes that file
  and hands the fetch a directory that holds only the tag: the removal precedes the
  request. On a successful fetch (status 206, the stream read to its end) the call
  returns \<open>True\<close> and the directory then holds \<open>cache_file_0_999\<close>, with the bytes of
  the response, and nothing else. Whatever the upstream does, \<open>cache_file_500_600\<close> is
  not in the directory after the call.
\<close>

theorem wider_write_supersedes:
  fixes ext :: externals and request_info :: RequestInfo
  defines "k \<equiv> get_hash_subdirectory_from_path ext (path (file_info request_info))
                  (file_type (file_info request_info))"
    and "u \<equiv> get_or_cache_alist_raw_url ext (path (file_info request_info)) (host_url request_info)"
  assumes target: "target_range request_info = Some (0, 999)"
    and dir: "files w k = Some [(''cache_file_500_600'', old)]"
    and host: "url_host u = Inr host"
    and fetch: "\<And>req. client req = Response 206 chunks True"
  shows "check_existing 0 999
           (map fst (open_w [(''cache_file_500_600'', old)] ''cache_file_0_999.tag''))
           (open_w [(''cache_file_500_600'', old)] ''cache_file_0_999.tag'')
           = (Inr Completed, [(''cache_file_0_999.tag'', [])])
       \<and> write_cache_file ext request_info req_header client w
           = (Inr (Some True),
              w\<lparr>files := (files w)(k \<mapsto> [(''cache_file_0_999'', concat chunks)]),
                sent := sent w @ [\<lparr>url = u, headers = build_headers req_header host 0 999\<rparr>]\<rparr>)
       \<and> (\<forall>client' d'. files (snd (write_cache_file ext request_info req_header client' w)) k = Some d'
              \<longrightarrow> ''cache_file_500_600'' \<notin> fst ` set d')"
proof -
  let ?d = "[(cache_file_name 500 600, old)]"
  let ?req = "\<lparr>url = u, headers = build_headers req_header host 0 999\<rparr>"
  have wf: "wf_dir ?d" by (simp add: wf_dir_def)
  have none: "\<forall>f \<in> fst ` set ?d. \<not> containing 0 999 f" by simp
  have dir': "files w k = Some ?d" using dir by (simp add: example_names)
  have written: "locked_section c u req_header 0 999 ?d
      = (Inr True, [(cache_file_name 0 999, concat body)], [?req])"
    if "c ?req = Response 206 body True" for c body
    using locked_section_written [where c = c and h = req_header, OF wf none host that] by simp
  have broken: "locked_section c u req_header 0 999 ?d = (Inr False, [], [?req])"
    if "c ?req = Response 206 body False" for c body
    using locked_section_broken [where c = c and h = req_header, OF wf none host that] by simp
  have failed: "locked_section c u req_header 0 999 ?d
      = (Inl FileNotFoundError, [(tag_name 0 999, [])], [?req])"
    if "c ?req = ConnectError \<or> (\<exists>status body ok. c ?req = Response status body ok \<and> status \<noteq> 206)"
    for c
    using locked_section_fetch_fails [where c = c and h = req_header, OF wf none host that]
    by (simp add: open_w_def)
  have after: "files (snd (write_cache_file ext request_info req_header c w)) k
      = Some (fst (snd (locked_section c u req_header 0 999 ?d)))" for c
    using target dir' by (simp add: write_cache_file_eligible k_def u_def split: prod.splits)
  have gone: "cache_file_name 500 600 \<notin> fst ` set d'"
    if d': "files (snd (write_cache_file ext request_info req_header c w)) k = Some d'" for c d'
  proof (cases "c ?req")
    case ConnectError
    with failed [of c] after [of c] d' show ?thesis by auto
  next
    case (Response status body ok)
    show ?thesis
    proof (cases "status = 206")
      case False
      with Response failed [of c] after [of c] d' show ?thesis by auto
    next
      case True
      with Response written [of c body] broken [of c body] after [of c] d' show ?thesis
        by (cases ok) auto
    qed
  qed
  from written [OF fetch] target dir' have "write_cache_file ext request_info req_header client w
      = (Inr (Some True),
         w\<lparr>files := (files w)(k \<mapsto> [(cache_file_name 0 999, concat chunks)]), sent := sent w @ [?req]\<rparr>)"
    by (simp add: write_cache_file_eligible k_def u_def)
  with example_loop [of old] gone show ?thesis
    by (simp add: example_names)
qed

theorem wider_write_supersedes_witness:
  "fst (write_cache_file example_ext head_request None (serving [[1, 2], [3]])
          (movie_world [(''cache_file_500_600'', [9])])) = Inr (Some True)
   \<and> files (snd (write_cache_file example_ext head_request None (serving [[1, 2], [3]])
          (movie_world [(''cache_file_500_600'', [9])]))) movie_dir
       = Some [(''cache_file_0_999'', [1, 2, 3])]"
proof -
  have dir: "files (movie_world [(''cache_file_500_600'', [9])])
      (get_hash_subdirectory_from_path example_ext (path (file_info head_request))
         (file_type (file_info head_request))) = Some [(''cache_file_500_600'', [9])]"
    by (simp add: example_requests movie_world_def)
  have host: "url_host (get_or_cache_alist_raw_url example_ext (path (file_info head_request))
      (host_url head_request)) = Inr ''alist:5244''"
    by (simp add: example_requests example_host)
  have fetch: "serving [[1, 2], [3]] req = Response 206 [[1, 2], [3]] True" for req
    by (simp add: serving_def)
  from wider_write_supersedes [OF example_requests(1) dir host fetch, of None]
  show ?thesis
    by (simp add: example_requests movie_world_def)
qed

section \<open>Write, probe, read\<close>

lemma cache_file_name_affixes [simp]:
  "startswith (cache_file_name s e) ''cache_file_''" "\<not> endswith (cache_file_name s e) ''.tag''"
  using is_cache_file_cache_file_name [of s e] by (simp_all add: is_cache_file_def)





end
